theory Spec2Isabelle
  imports Main "HOL-Library.Sublist"
begin

section \<open>Media keys and managed prefixes\<close>

text \<open>
  The media garbage collector of \<^verbatim>\<open>scheduler.service.ts\<close>
  (\<^verbatim>\<open>MediaCleanSchedulerService\<close>) reconciles the media keys referenced by product and
  category documents with the keys held in the R2 bucket, and separately removes old files
  from the local staging directory. Keys are strings; the three managed prefixes are the
  constants exported by the media controller.
\<close>

type_synonym key = string

definition PRODUCT_IMAGE_PREFIX :: string where
  "PRODUCT_IMAGE_PREFIX = ''img/product/''"

definition PRODUCT_THUMBNAIL_PREFIX :: string where
  "PRODUCT_THUMBNAIL_PREFIX = ''img/product/thumbnail/''"

definition CATEGORY_THUMBNAIL_PREFIX :: string where
  "CATEGORY_THUMBNAIL_PREFIX = ''img/category/thumbnail/''"

text \<open>\<^verbatim>\<open>s.startsWith(p)\<close> of JavaScript.\<close>

definition startsWith :: "string \<Rightarrow> string \<Rightarrow> bool" where
  "startsWith s p = prefix p s"

text \<open>
  The \<^verbatim>\<open>$regex: "^p", $options: "i"\<close> filters of the two \<^verbatim>\<open>find\<close> queries: a
  prefix match that ignores the case of ASCII letters (the prefixes hold no regex
  metacharacter).
\<close>

definition toLower :: "char \<Rightarrow> char" where
  "toLower c =
     (case map_of (zip ''ABCDEFGHIJKLMNOPQRSTUVWXYZ'' ''abcdefghijklmnopqrstuvwxyz'') c of
        Some l \<Rightarrow> l
      | None \<Rightarrow> c)"

definition regexPrefixI :: "string \<Rightarrow> string \<Rightarrow> bool" where
  "regexPrefixI p s = prefix (map toLower p) (map toLower s)"

text \<open>
  A JavaScript \<^verbatim>\<open>Set<string>\<close> keeps its elements in insertion order and
  \<^verbatim>\<open>Array.from\<close> reads them in that order: a list without duplicates, \<^verbatim>\<open>add\<close>
  appending an element that is not yet there.
\<close>

definition set_add :: "key list \<Rightarrow> key \<Rightarrow> key list" where
  "set_add s k = (if k \<in> set s then s else s @ [k])"

text \<open>\<^verbatim>\<open>xs.slice(a, b)\<close> for indices \<open>0 \<le> a \<le> b\<close>; the end is clamped to the length.\<close>

definition slice :: "'a list \<Rightarrow> nat \<Rightarrow> nat \<Rightarrow> 'a list" where
  "slice xs a b = take (b - a) (drop a xs)"

section \<open>The two stores and the calls made to them\<close>

text \<open>
  A product document carries the array field \<^verbatim>\<open>images\<close> (schema default \<^verbatim>\<open>[]\<close>) and the
  singular field \<^verbatim>\<open>thumbnail\<close> (a string or \<^verbatim>\<open>null\<close>); a category document carries a
  \<^verbatim>\<open>thumbnail\<close>.
\<close>

record product =
  images :: "key list"
  thumbnail :: "key option"

record category =
  cat_thumbnail :: "key option"

text \<open>
  Every request the engine sends to the database or to the bucket. The list of requests
  sent so far is part of the state, so that "no I/O was performed" is a statement about it;
  beside every request the log keeps the value the running flag had when the request was
  sent (\<open>flagAtCall\<close>), so that "the run holds the flag" is a statement about it too.
  \<open>undeletable\<close> are the keys the bucket refuses to delete (see \<^verbatim>\<open>DeleteObjects\<close> below).
\<close>

datatype call =
    FindProducts
  | FindCategories
  | ListObjects string "nat option"
  | DeleteObjects "key list"
  | PullProductImages "key list"
  | NullProductThumbnails "key list"
  | NullCategoryThumbnails "key list"

datatype error = DatabaseError | DbOperationError | R2Error | FsError

record world =
  products :: "product list"
  categories :: "category list"
  bucket :: "key list"
  undeletable :: "key list"
  connected :: bool
  calls :: "call list"
  flagAtCall :: "bool list"
  isCleanupRunning :: bool

text \<open>
  Which requests fail is a parameter \<open>F\<close> of every operation: \<open>F c\<close> holds when the
  request \<open>c\<close> throws. A request is recorded before it is answered.
\<close>

definition io :: "call \<Rightarrow> world \<Rightarrow> world" where
  "io c w = w\<lparr>calls := calls w @ [c], flagAtCall := flagAtCall w @ [isCleanupRunning w]\<rparr>"

record cleanup_result =
  orphanedR2Files :: nat
  danglingSavedReferences :: nat

definition zero_counts :: cleanup_result where
  "zero_counts = \<lparr>orphanedR2Files = 0, danglingSavedReferences = 0\<rparr>"

subsection \<open>The storage service\<close>

text \<open>
  The bucket's \<^verbatim>\<open>ListObjectsV2\<close>: the keys under the prefix \<open>pfx\<close>, at most \<open>maxKeys\<close> of them per
  page, with a continuation token (here the offset of the next page) while keys remain.
  \<^verbatim>\<open>DeleteObjects\<close> in \<^verbatim>\<open>Quiet\<close> mode removes the keys of the batch it can remove and answers,
  without throwing, with the list \<^verbatim>\<open>Errors\<close> of the keys it could not remove (here the keys
  of the batch that are \<open>undeletable\<close>).
\<close>

definition listObjectsV2 :: "key list \<Rightarrow> string \<Rightarrow> nat \<Rightarrow> nat option \<Rightarrow> key list \<times> nat option" where
  "listObjectsV2 b pfx maxKeys token =
     (let matching = filter (\<lambda>k. startsWith k pfx) b;
          start = (case token of None \<Rightarrow> 0 | Some t \<Rightarrow> t)
      in (take maxKeys (drop start matching),
          if start + maxKeys < length matching then Some (start + maxKeys) else None))"

definition deleteObjects :: "key list \<Rightarrow> key list \<Rightarrow> key list \<Rightarrow> key list \<times> key list" where
  "deleteObjects refused batch b =
     (filter (\<lambda>k. k \<notin> set batch \<or> k \<in> set refused) b, filter (\<lambda>k. k \<in> set refused) batch)"

subsection \<open>The document store\<close>

text \<open>
  \<^verbatim>\<open>updateMany({images: {$in: ks}}, {$pull: {images: {$in: ks}}})\<close> and
  \<^verbatim>\<open>updateMany({thumbnail: {$in: ks}}, {$set: {thumbnail: null}})\<close>, on one document.
\<close>

definition pullImages :: "key list \<Rightarrow> product \<Rightarrow> product" where
  "pullImages ks p = p\<lparr>images := filter (\<lambda>k. k \<notin> set ks) (images p)\<rparr>"

definition nullProductThumbnail :: "key list \<Rightarrow> product \<Rightarrow> product" where
  "nullProductThumbnail ks p =
     (case thumbnail p of
        Some t \<Rightarrow> if t \<in> set ks then p\<lparr>thumbnail := None\<rparr> else p
      | None \<Rightarrow> p)"

definition nullCategoryThumbnail :: "key list \<Rightarrow> category \<Rightarrow> category" where
  "nullCategoryThumbnail ks c =
     (case cat_thumbnail c of
        Some t \<Rightarrow> if t \<in> set ks then c\<lparr>cat_thumbnail := None\<rparr> else c
      | None \<Rightarrow> c)"

text \<open>
  \<^verbatim>\<open>DbService.executeDbOperation\<close>: throws when the connection is not established,
  otherwise runs the operation; an error of the operation is rethrown (mapped to one of
  the application's error classes).
\<close>

definition executeDbOperation ::
  "(world \<Rightarrow> world \<times> (error + 'a)) \<Rightarrow> world \<Rightarrow> world \<times> (error + 'a)" where
  "executeDbOperation operation w =
     (if \<not> connected w then (w, Inl DatabaseError) else operation w)"

section \<open>ReferenceCollector: \<^verbatim>\<open>getMediaKeysFromDatabase\<close>\<close>

definition productQuery :: "product \<Rightarrow> bool" where
  "productQuery p =
     (images p \<noteq> [] \<or>
      (case thumbnail p of
         None \<Rightarrow> False
       | Some t \<Rightarrow> regexPrefixI PRODUCT_IMAGE_PREFIX t \<or> regexPrefixI PRODUCT_THUMBNAIL_PREFIX t))"

definition categoryQuery :: "category \<Rightarrow> bool" where
  "categoryQuery c =
     (case cat_thumbnail c of None \<Rightarrow> False | Some t \<Rightarrow> regexPrefixI CATEGORY_THUMBNAIL_PREFIX t)"

definition addProductKeys :: "key list \<Rightarrow> product \<Rightarrow> key list" where
  "addProductKeys mediaKeys p =
     (let mk = (case thumbnail p of
                  None \<Rightarrow> mediaKeys
                | Some t \<Rightarrow>
                    if t \<noteq> [] \<and> (startsWith t PRODUCT_IMAGE_PREFIX \<or> startsWith t PRODUCT_THUMBNAIL_PREFIX)
                    then set_add mediaKeys t else mediaKeys)
      in foldl (\<lambda>s k. if startsWith k PRODUCT_IMAGE_PREFIX then set_add s k else s) mk (images p))"

definition addCategoryKeys :: "key list \<Rightarrow> category \<Rightarrow> key list" where
  "addCategoryKeys mediaKeys c =
     (case cat_thumbnail c of
        None \<Rightarrow> mediaKeys
      | Some t \<Rightarrow>
          if t \<noteq> [] \<and> startsWith t CATEGORY_THUMBNAIL_PREFIX then set_add mediaKeys t else mediaKeys)"

definition getMediaKeysFromDatabase :: "(call \<Rightarrow> bool) \<Rightarrow> world \<Rightarrow> world \<times> (error + key list)" where
  "getMediaKeysFromDatabase F =
     executeDbOperation (\<lambda>w.
       let w1 = io FindProducts w in
       if F FindProducts then (w1, Inl DbOperationError)
       else
         let productImages = filter productQuery (products w1);
             mk1 = foldl addProductKeys [] productImages;
             w2 = io FindCategories w1
         in if F FindCategories then (w2, Inl DbOperationError)
            else
              let categoryThumbnails = filter categoryQuery (categories w2)
              in (w2, Inr (foldl addCategoryKeys mk1 categoryThumbnails)))"

section \<open>ObjectLister: \<^verbatim>\<open>getMediaKeysFromR2\<close>\<close>

text \<open>
  The \<^verbatim>\<open>do ... while (continuationToken)\<close> loop of \<^verbatim>\<open>getR2KeysWithPrefix\<close>: one
  \<^verbatim>\<open>ListObjectsV2\<close> request per page, each key of the page added to the set (an empty
  key is skipped by \<^verbatim>\<open>if (item.Key)\<close>), until a page comes without a token. A failed
  request throws out of the loop.
\<close>

function getR2KeysLoop ::
  "(call \<Rightarrow> bool) \<Rightarrow> string \<Rightarrow> nat option \<Rightarrow> key list \<Rightarrow> world \<Rightarrow> world \<times> (error + key list)" where
  "getR2KeysLoop F pfx continuationToken mediaKeys w =
     (let w1 = io (ListObjects pfx continuationToken) w in
      if F (ListObjects pfx continuationToken) then (w1, Inl R2Error)
      else
        let response = listObjectsV2 (bucket w1) pfx 1000 continuationToken;
            mk = foldl (\<lambda>s k. if k \<noteq> [] then set_add s k else s) mediaKeys (fst response)
        in (case snd response of
              None \<Rightarrow> (w1, Inr mk)
            | Some t \<Rightarrow> getR2KeysLoop F pfx (Some t) mk w1))"
  by pat_completeness auto
termination
  by (relation "measure (\<lambda>(F, pfx, tok, mk, w).
        length (filter (\<lambda>k. startsWith k pfx) (bucket w)) - (case tok of None \<Rightarrow> 0 | Some t \<Rightarrow> t))")
     (auto simp: listObjectsV2_def io_def Let_def split: if_splits option.splits)

definition getR2KeysWithPrefix ::
  "(call \<Rightarrow> bool) \<Rightarrow> string \<Rightarrow> key list \<Rightarrow> world \<Rightarrow> world \<times> (error + key list)" where
  "getR2KeysWithPrefix F pfx mediaKeys w = getR2KeysLoop F pfx None mediaKeys w"

definition getMediaKeysFromR2 :: "(call \<Rightarrow> bool) \<Rightarrow> world \<Rightarrow> world \<times> (error + key list)" where
  "getMediaKeysFromR2 F w =
     (case getR2KeysWithPrefix F PRODUCT_IMAGE_PREFIX [] w of
        (w1, Inl e) \<Rightarrow> (w1, Inl e)
      | (w1, Inr mk1) \<Rightarrow>
          (case getR2KeysWithPrefix F PRODUCT_THUMBNAIL_PREFIX mk1 w1 of
             (w2, Inl e) \<Rightarrow> (w2, Inl e)
           | (w2, Inr mk2) \<Rightarrow> getR2KeysWithPrefix F CATEGORY_THUMBNAIL_PREFIX mk2 w2))"

section \<open>BatchDeleter: \<^verbatim>\<open>deleteOrphanedR2Files\<close>\<close>

text \<open>
  The \<^verbatim>\<open>for (let i = 0; i < orphanedKeys.length; i += batchSize)\<close> loop. It stands inside
  one \<^verbatim>\<open>try\<close> whose \<^verbatim>\<open>catch\<close> logs and rethrows, so the first failed request ends the
  loop and the function throws. The answer of a request that does not throw is not read:
  its \<^verbatim>\<open>Errors\<close> are dropped.
\<close>

definition batchSize :: nat where
  "batchSize = 1000"

function deleteBatches ::
  "(call \<Rightarrow> bool) \<Rightarrow> key list \<Rightarrow> nat \<Rightarrow> world \<Rightarrow> world \<times> (error + unit)" where
  "deleteBatches F orphanedKeys i w =
     (if i < length orphanedKeys then
        let batch = slice orphanedKeys i (i + batchSize);
            w1 = io (DeleteObjects batch) w
        in if F (DeleteObjects batch) then (w1, Inl R2Error)
           else deleteBatches F orphanedKeys (i + batchSize)
                  (w1\<lparr>bucket := fst (deleteObjects (undeletable w1) batch (bucket w1))\<rparr>)
      else (w, Inr ()))"
  by pat_completeness auto
termination
  by (relation "measure (\<lambda>(F, orphanedKeys, i, w). length orphanedKeys - i)")
     (auto simp: batchSize_def)

definition deleteOrphanedR2Files ::
  "(call \<Rightarrow> bool) \<Rightarrow> key list \<Rightarrow> world \<Rightarrow> world \<times> (error + unit)" where
  "deleteOrphanedR2Files F orphanedKeys w =
     (if length orphanedKeys = 0 then (w, Inr ()) else deleteBatches F orphanedKeys 0 w)"

section \<open>ReferenceCleaner: \<^verbatim>\<open>cleanupDanglingDatabaseReferences\<close>\<close>

text \<open>
  The update queries pushed to \<^verbatim>\<open>updatePromises\<close> are all handed to \<^verbatim>\<open>Promise.all\<close>,
  which starts every one of them and rejects when one rejects: each update is sent, a
  failed one leaves the documents as they are, and the first error (in the order of the
  array) is the one thrown. No update has a handler of its own.
\<close>

definition runUpdate :: "(call \<Rightarrow> bool) \<Rightarrow> call \<Rightarrow> (world \<Rightarrow> world) \<Rightarrow> world \<times> (error + unit) \<Rightarrow> world \<times> (error + unit)" where
  "runUpdate F c effect st =
     (let w1 = io c (fst st) in
      if F c then (w1, case snd st of Inl e \<Rightarrow> Inl e | Inr _ \<Rightarrow> Inl DbOperationError)
      else (effect w1, snd st))"

definition cleanupDanglingDatabaseReferences ::
  "(call \<Rightarrow> bool) \<Rightarrow> key list \<Rightarrow> world \<Rightarrow> world \<times> (error + unit)" where
  "cleanupDanglingDatabaseReferences F danglingKeys w =
     (if length danglingKeys = 0 then (w, Inr ())
      else executeDbOperation (\<lambda>w.
        let productImageKeys = filter (\<lambda>k. startsWith k PRODUCT_IMAGE_PREFIX) danglingKeys;
            productThumbnailKeys = filter (\<lambda>k. startsWith k PRODUCT_THUMBNAIL_PREFIX) danglingKeys;
            categoryThumbnailKeys = filter (\<lambda>k. startsWith k CATEGORY_THUMBNAIL_PREFIX) danglingKeys;
            s0 = (w, Inr ());
            s1 = (if length productImageKeys > 0
                  then runUpdate F (PullProductImages productImageKeys)
                         (\<lambda>w. w\<lparr>products := map (pullImages productImageKeys) (products w)\<rparr>) s0
                  else s0);
            s2 = (if length productThumbnailKeys > 0
                  then runUpdate F (NullProductThumbnails productThumbnailKeys)
                         (\<lambda>w. w\<lparr>products := map (nullProductThumbnail productThumbnailKeys) (products w)\<rparr>) s1
                  else s1);
            s3 = (if length categoryThumbnailKeys > 0
                  then runUpdate F (NullCategoryThumbnails categoryThumbnailKeys)
                         (\<lambda>w. w\<lparr>categories := map (nullCategoryThumbnail categoryThumbnailKeys) (categories w)\<rparr>) s2
                  else s2)
        in s3) w)"

section \<open>ReconciliationEngine: \<^verbatim>\<open>cleanupMediaFiles\<close>\<close>

text \<open>The body of the \<^verbatim>\<open>try\<close> block, after the flag has been set.\<close>

definition cleanupMediaFilesTry :: "(call \<Rightarrow> bool) \<Rightarrow> world \<Rightarrow> world \<times> (error + cleanup_result)" where
  "cleanupMediaFilesTry F w =
     (case getMediaKeysFromDatabase F w of
        (w1, Inl e) \<Rightarrow> (w1, Inl e)
      | (w1, Inr dbMediaKeys) \<Rightarrow>
          (case getMediaKeysFromR2 F w1 of
             (w2, Inl e) \<Rightarrow> (w2, Inl e)
           | (w2, Inr r2MediaKeys) \<Rightarrow>
               let orphanedR2Keys = filter (\<lambda>k. k \<notin> set dbMediaKeys) r2MediaKeys in
               (case deleteOrphanedR2Files F orphanedR2Keys w2 of
                  (w3, Inl e) \<Rightarrow> (w3, Inl e)
                | (w3, Inr _) \<Rightarrow>
                    let danglingDbKeys = filter (\<lambda>k. k \<notin> set r2MediaKeys) dbMediaKeys in
                    (case cleanupDanglingDatabaseReferences F danglingDbKeys w3 of
                       (w4, Inl e) \<Rightarrow> (w4, Inl e)
                     | (w4, Inr _) \<Rightarrow>
                         (w4, Inr \<lparr>orphanedR2Files = length orphanedR2Keys,
                                   danglingSavedReferences = length danglingDbKeys\<rparr>)))))"

text \<open>
  The whole function: the early return while a run is active, the \<^verbatim>\<open>catch\<close> that turns
  any error into zero counts, and the \<^verbatim>\<open>finally\<close> that resets the flag.
\<close>

definition cleanupMediaFiles :: "(call \<Rightarrow> bool) \<Rightarrow> world \<Rightarrow> world \<times> cleanup_result" where
  "cleanupMediaFiles F w =
     (if isCleanupRunning w then (w, zero_counts)
      else
        (case cleanupMediaFilesTry F (w\<lparr>isCleanupRunning := True\<rparr>) of
           (w', r) \<Rightarrow>
             (w'\<lparr>isCleanupRunning := False\<rparr>,
              case r of Inl e \<Rightarrow> zero_counts | Inr counts \<Rightarrow> counts)))"

definition runMediaCleanupManually :: "(call \<Rightarrow> bool) \<Rightarrow> world \<Rightarrow> world \<times> cleanup_result" where
  "runMediaCleanupManually F w = cleanupMediaFiles F w"

section \<open>TempFileJanitor: \<^verbatim>\<open>cleanupOldTempFiles\<close>\<close>

text \<open>
  What \<^verbatim>\<open>fs.statSync\<close> reports of an entry of the staging directory: the modification
  time and \<^verbatim>\<open>Date.now()\<close> are counted in whole milliseconds, the size in bytes.
  The directory is the list of its entries, or \<open>None\<close> when it does not exist. The log of
  filesystem calls keeps, beside every call, the value the job's running flag had when the
  call was made (\<open>flagAtFsCall\<close>).
\<close>

record stats =
  mtimeMs :: int
  sizeBytes :: nat
  isDirectory :: bool
  isFile :: bool

datatype fs_call = ExistsSync | MkdirSync | ReaddirSync | StatSync string | UnlinkSync string

record tempfs =
  uploadDir :: "(string \<times> stats) list option"
  fscalls :: "fs_call list"
  flagAtFsCall :: "bool list"
  isTempCleanupRunning :: bool

record temp_result =
  filesDeleted :: nat
  totalSize :: nat

definition zero_temp :: temp_result where
  "zero_temp = \<lparr>filesDeleted = 0, totalSize = 0\<rparr>"

definition TEMP_FILE_MAX_AGE :: int where
  "TEMP_FILE_MAX_AGE = 60 * 60 * 1000"

definition fio :: "fs_call \<Rightarrow> tempfs \<Rightarrow> tempfs" where
  "fio c t = t\<lparr>fscalls := fscalls t @ [c], flagAtFsCall := flagAtFsCall t @ [isTempCleanupRunning t]\<rparr>"

definition unlink :: "string \<Rightarrow> tempfs \<Rightarrow> tempfs" where
  "unlink file t = t\<lparr>uploadDir := map_option (filter (\<lambda>e. fst e \<noteq> file)) (uploadDir t)\<rparr>"

text \<open>
  One turn of the \<^verbatim>\<open>for (const file of files)\<close> loop, with its own \<^verbatim>\<open>try/catch\<close>: an
  error of \<^verbatim>\<open>statSync\<close> or \<^verbatim>\<open>unlinkSync\<close> is logged and the loop goes on. The size is
  added before the entry's type is looked at, the file counter after the unlink.
\<close>

definition processTempFile ::
  "(fs_call \<Rightarrow> bool) \<Rightarrow> int \<Rightarrow> string \<Rightarrow> tempfs \<times> nat \<times> nat \<Rightarrow> tempfs \<times> nat \<times> nat" where
  "processTempFile F now file acc =
     (case acc of (t, fd, ts) \<Rightarrow>
        let t1 = fio (StatSync file) t in
        if F (StatSync file) then (t1, fd, ts)
        else
          (case map_of (case uploadDir t1 of None \<Rightarrow> [] | Some es \<Rightarrow> es) file of
             None \<Rightarrow> (t1, fd, ts)
           | Some st \<Rightarrow>
               if now - mtimeMs st > TEMP_FILE_MAX_AGE then
                 let ts' = ts + sizeBytes st in
                 if isDirectory st then (t1, fd, ts')
                 else if isFile st then
                   let t2 = fio (UnlinkSync file) t1 in
                   if F (UnlinkSync file) then (t2, fd, ts')
                   else (unlink file t2, fd + 1, ts')
                 else (t1, fd, ts')
               else (t1, fd, ts)))"

fun processTempFiles ::
  "(fs_call \<Rightarrow> bool) \<Rightarrow> int \<Rightarrow> string list \<Rightarrow> tempfs \<times> nat \<times> nat \<Rightarrow> tempfs \<times> nat \<times> nat" where
  "processTempFiles F now [] acc = acc"
| "processTempFiles F now (file # files) acc =
     processTempFiles F now files (processTempFile F now file acc)"

text \<open>The body of the \<^verbatim>\<open>try\<close> block of \<^verbatim>\<open>cleanupOldTempFiles\<close>.\<close>

definition cleanupOldTempFilesTry ::
  "(fs_call \<Rightarrow> bool) \<Rightarrow> int \<Rightarrow> tempfs \<Rightarrow> tempfs \<times> (error + temp_result)" where
  "cleanupOldTempFilesTry F now t =
     (let t1 = fio ExistsSync t in
      case uploadDir t1 of
        None \<Rightarrow>
          let t2 = fio MkdirSync t1 in
          if F MkdirSync then (t2, Inl FsError)
          else (t2\<lparr>uploadDir := Some []\<rparr>, Inr zero_temp)
      | Some es \<Rightarrow>
          let t2 = fio ReaddirSync t1 in
          if F ReaddirSync then (t2, Inl FsError)
          else
            let files = map fst es in
            if length files = 0 then (t2, Inr zero_temp)
            else
              (case processTempFiles F now files (t2, 0, 0) of
                 (t3, fd, ts) \<Rightarrow> (t3, Inr \<lparr>filesDeleted = fd, totalSize = ts\<rparr>)))"

definition cleanupOldTempFiles ::
  "(fs_call \<Rightarrow> bool) \<Rightarrow> int \<Rightarrow> tempfs \<Rightarrow> tempfs \<times> temp_result" where
  "cleanupOldTempFiles F now t =
     (if isTempCleanupRunning t then (t, zero_temp)
      else
        (case cleanupOldTempFilesTry F now (t\<lparr>isTempCleanupRunning := True\<rparr>) of
           (t', r) \<Rightarrow>
             (t'\<lparr>isTempCleanupRunning := False\<rparr>,
              case r of Inl e \<Rightarrow> zero_temp | Inr res \<Rightarrow> res)))"

definition runTempFileCleanupManually ::
  "(fs_call \<Rightarrow> bool) \<Rightarrow> int \<Rightarrow> tempfs \<Rightarrow> tempfs \<times> temp_result" where
  "runTempFileCleanupManually F now t = cleanupOldTempFiles F now t"

section \<open>Vocabulary of the properties\<close>

text \<open>
  The requests that change a store; the requests a run has added to the log; two worlds
  holding the same documents and the same bucket; and \<open>extends P w w'\<close>: \<open>w'\<close> has the
  connection state, the running flag and the undeletable keys of \<open>w\<close>, and its log is the
  log of \<open>w\<close> followed by requests that all satisfy \<open>P\<close>.
\<close>

fun is_mutation :: "call \<Rightarrow> bool" where
  "is_mutation (DeleteObjects ks) = True"
| "is_mutation (PullProductImages ks) = True"
| "is_mutation (NullProductThumbnails ks) = True"
| "is_mutation (NullCategoryThumbnails ks) = True"
| "is_mutation c = False"

definition new_calls :: "world \<Rightarrow> world \<Rightarrow> call list" where
  "new_calls w w' = drop (length (calls w)) (calls w')"

definition same_stores :: "world \<Rightarrow> world \<Rightarrow> bool" where
  "same_stores w w' \<longleftrightarrow> products w' = products w \<and> categories w' = categories w \<and> bucket w' = bucket w"

definition extends :: "(call \<Rightarrow> bool) \<Rightarrow> world \<Rightarrow> world \<Rightarrow> bool" where
  "extends P w w' \<longleftrightarrow>
     connected w' = connected w \<and> isCleanupRunning w' = isCleanupRunning w \<and>
     undeletable w' = undeletable w \<and>
     (\<exists>cs. calls w' = calls w @ cs \<and> (\<forall>c \<in> set cs. P c))"

text \<open>
  The flags logged beside the requests a run has added, and the same for the calls on the
  filesystem. \<open>holds_flag w w'\<close>: \<open>w'\<close> has the running flag and the connection state of \<open>w\<close>,
  and every request added to the log was logged with that flag.
\<close>

definition new_flags :: "world \<Rightarrow> world \<Rightarrow> bool list" where
  "new_flags w w' = drop (length (flagAtCall w)) (flagAtCall w')"

definition holds_flag :: "world \<Rightarrow> world \<Rightarrow> bool" where
  "holds_flag w w' \<longleftrightarrow>
     isCleanupRunning w' = isCleanupRunning w \<and> connected w' = connected w \<and>
     (\<exists>cs. calls w' = calls w @ cs \<and>
           flagAtCall w' = flagAtCall w @ replicate (length cs) (isCleanupRunning w))"

definition managed_prefix :: "string \<Rightarrow> bool" where
  "managed_prefix p \<longleftrightarrow>
     p = PRODUCT_IMAGE_PREFIX \<or> p = PRODUCT_THUMBNAIL_PREFIX \<or> p = CATEGORY_THUMBNAIL_PREFIX"

text \<open>
  The batches of the deleter: \<open>nthBatch ks m\<close> is the slice the loop cuts at \<open>i = m * batchSize\<close>,
  and \<open>batchCount n\<close> is \<open>n / 1000\<close> rounded up.
\<close>

definition nthBatch :: "key list \<Rightarrow> nat \<Rightarrow> key list" where
  "nthBatch ks m = slice ks (m * batchSize) (m * batchSize + batchSize)"

definition batchCount :: "nat \<Rightarrow> nat" where
  "batchCount n = (n + 999) div 1000"

text \<open>
  The delete requests of a deleter that goes through all its batches, and the condition
  that none of them fails.
\<close>

definition deleteRequests :: "key list \<Rightarrow> call list" where
  "deleteRequests ks = map (\<lambda>m. DeleteObjects (nthBatch ks m)) [0..<batchCount (length ks)]"

definition no_batch_fails :: "(call \<Rightarrow> bool) \<Rightarrow> key list \<Rightarrow> bool" where
  "no_batch_fails F ks = list_all (\<lambda>c. \<not> F c) (deleteRequests ks)"

text \<open>The three groups of dangling keys, as the cleaner cuts them.\<close>

definition productImageKeys :: "key list \<Rightarrow> key list" where
  "productImageKeys danglingKeys = filter (\<lambda>k. startsWith k PRODUCT_IMAGE_PREFIX) danglingKeys"

definition productThumbnailKeys :: "key list \<Rightarrow> key list" where
  "productThumbnailKeys danglingKeys = filter (\<lambda>k. startsWith k PRODUCT_THUMBNAIL_PREFIX) danglingKeys"

definition categoryThumbnailKeys :: "key list \<Rightarrow> key list" where
  "categoryThumbnailKeys danglingKeys = filter (\<lambda>k. startsWith k CATEGORY_THUMBNAIL_PREFIX) danglingKeys"

text \<open>
  The update requests of the cleaner, one for every non-empty group, and the condition
  that none of them fails.
\<close>

definition groupUpdates :: "key list \<Rightarrow> call list" where
  "groupUpdates danglingKeys =
     (if productImageKeys danglingKeys \<noteq> []
      then [PullProductImages (productImageKeys danglingKeys)] else []) @
     (if productThumbnailKeys danglingKeys \<noteq> []
      then [NullProductThumbnails (productThumbnailKeys danglingKeys)] else []) @
     (if categoryThumbnailKeys danglingKeys \<noteq> []
      then [NullCategoryThumbnails (categoryThumbnailKeys danglingKeys)] else [])"

definition no_group_fails :: "(call \<Rightarrow> bool) \<Rightarrow> key list \<Rightarrow> bool" where
  "no_group_fails F danglingKeys = list_all (\<lambda>c. \<not> F c) (groupUpdates danglingKeys)"

text \<open>
  The entries of the staging directory, none when it does not exist; the calls on the
  filesystem a run has added to the log, and the flags logged beside them.
\<close>

definition new_fscalls :: "tempfs \<Rightarrow> tempfs \<Rightarrow> fs_call list" where
  "new_fscalls t t' = drop (length (fscalls t)) (fscalls t')"

definition new_fsflags :: "tempfs \<Rightarrow> tempfs \<Rightarrow> bool list" where
  "new_fsflags t t' = drop (length (flagAtFsCall t)) (flagAtFsCall t')"

definition holds_temp_flag :: "tempfs \<Rightarrow> tempfs \<Rightarrow> bool" where
  "holds_temp_flag t t' \<longleftrightarrow>
     isTempCleanupRunning t' = isTempCleanupRunning t \<and>
     (\<exists>cs. fscalls t' = fscalls t @ cs \<and>
           flagAtFsCall t' = flagAtFsCall t @ replicate (length cs) (isTempCleanupRunning t))"

definition dirEntries :: "tempfs \<Rightarrow> (string \<times> stats) list" where
  "dirEntries t = (case uploadDir t of None \<Rightarrow> [] | Some es \<Rightarrow> es)"

text \<open>
  The entries a scan removes: those whose \<^verbatim>\<open>statSync\<close> succeeds, that are older than the
  threshold, that are not directories and are regular files, and whose \<^verbatim>\<open>unlinkSync\<close>
  succeeds.
\<close>

definition removable :: "(fs_call \<Rightarrow> bool) \<Rightarrow> int \<Rightarrow> string \<times> stats \<Rightarrow> bool" where
  "removable G now e =
     (now - mtimeMs (snd e) > TEMP_FILE_MAX_AGE \<and> \<not> isDirectory (snd e) \<and> isFile (snd e) \<and>
      \<not> G (StatSync (fst e)) \<and> \<not> G (UnlinkSync (fst e)))"

text \<open>
  A key under a managed prefix; a request that names only managed prefixes and keys under
  them; a document whose values outside the managed prefixes are what they were.
\<close>

definition managed :: "key \<Rightarrow> bool" where
  "managed k \<longleftrightarrow>
     startsWith k PRODUCT_IMAGE_PREFIX \<or> startsWith k PRODUCT_THUMBNAIL_PREFIX \<or>
     startsWith k CATEGORY_THUMBNAIL_PREFIX"

fun within_prefixes :: "call \<Rightarrow> bool" where
  "within_prefixes FindProducts = True"
| "within_prefixes FindCategories = True"
| "within_prefixes (ListObjects p t) = managed_prefix p"
| "within_prefixes (DeleteObjects ks) = list_all managed ks"
| "within_prefixes (PullProductImages ks) = list_all managed ks"
| "within_prefixes (NullProductThumbnails ks) = list_all managed ks"
| "within_prefixes (NullCategoryThumbnails ks) = list_all managed ks"

definition product_kept :: "product \<Rightarrow> product \<Rightarrow> bool" where
  "product_kept p p' \<longleftrightarrow>
     filter (\<lambda>k. \<not> managed k) (images p') = filter (\<lambda>k. \<not> managed k) (images p) \<and>
     (case thumbnail p of
        None \<Rightarrow> thumbnail p' = None
      | Some t \<Rightarrow> managed t \<or> thumbnail p' = Some t)"

definition category_kept :: "category \<Rightarrow> category \<Rightarrow> bool" where
  "category_kept c c' \<longleftrightarrow>
     (case cat_thumbnail c of
        None \<Rightarrow> cat_thumbnail c' = None
      | Some t \<Rightarrow> managed t \<or> cat_thumbnail c' = Some t)"

definition stays_within :: "world \<Rightarrow> world \<Rightarrow> bool" where
  "stays_within w w' \<longleftrightarrow>
     list_all within_prefixes (new_calls w w') \<and>
     list_all (\<lambda>k. managed k \<or> k \<in> set (bucket w')) (bucket w) \<and>
     list_all2 product_kept (products w) (products w') \<and>
     list_all2 category_kept (categories w) (categories w')"

text \<open>
  What a successful reference cleanup for the dangling keys \<open>D\<close> has done to a product
  and to a category: the gallery has lost exactly its keys of \<open>D\<close> under the image prefix; a
  thumbnail outside \<open>D\<close> is what it was, a thumbnail of \<open>D\<close> under the thumbnail prefix is
  null.
\<close>

definition product_cleaned :: "key list \<Rightarrow> product \<Rightarrow> product \<Rightarrow> bool" where
  "product_cleaned D p p' \<longleftrightarrow>
     images p' = filter (\<lambda>k. \<not> (k \<in> set D \<and> startsWith k PRODUCT_IMAGE_PREFIX)) (images p) \<and>
     (case thumbnail p of
        None \<Rightarrow> thumbnail p' = None
      | Some t \<Rightarrow>
          (if t \<in> set D then \<not> startsWith t PRODUCT_THUMBNAIL_PREFIX \<or> thumbnail p' = None
           else thumbnail p' = Some t))"

definition category_cleaned :: "key list \<Rightarrow> category \<Rightarrow> category \<Rightarrow> bool" where
  "category_cleaned D c c' \<longleftrightarrow>
     (case cat_thumbnail c of
        None \<Rightarrow> cat_thumbnail c' = None
      | Some t \<Rightarrow>
          (if t \<in> set D \<and> startsWith t CATEGORY_THUMBNAIL_PREFIX then cat_thumbnail c' = None
           else cat_thumbnail c' = Some t))"

text \<open>
  The keys a state references, as the collector reads them, and the keys it stores under
  the managed prefixes, as the lister reads them.
\<close>

definition refs_product :: "product \<Rightarrow> key set" where
  "refs_product p =
     (case thumbnail p of
        None \<Rightarrow> {}
      | Some t \<Rightarrow>
          if startsWith t PRODUCT_IMAGE_PREFIX \<or> startsWith t PRODUCT_THUMBNAIL_PREFIX then {t} else {}) \<union>
     {k \<in> set (images p). startsWith k PRODUCT_IMAGE_PREFIX}"

definition refs_category :: "category \<Rightarrow> key set" where
  "refs_category c =
     (case cat_thumbnail c of
        None \<Rightarrow> {}
      | Some t \<Rightarrow> if startsWith t CATEGORY_THUMBNAIL_PREFIX then {t} else {})"

definition referenced :: "world \<Rightarrow> key set" where
  "referenced w = (\<Union>p \<in> set (products w). refs_product p) \<union> (\<Union>c \<in> set (categories w). refs_category c)"

definition stored :: "world \<Rightarrow> key set" where
  "stored w = {k \<in> set (bucket w). managed k}"

section \<open>Concrete states\<close>

text \<open>
  Keys as the controller generates them (\<open>K1\<close>, \<open>K2\<close> product thumbnails, \<open>K3\<close>, \<open>K4\<close> gallery
  images, \<open>K5\<close> a category thumbnail), 2500 keys for the batch scenario, small states of
  the two stores (in \<open>world_L\<close> the store refuses to delete \<open>K2\<close>) and of the staging
  directory, and patterns of failing requests, on which the general statements below are
  instantiated.
\<close>

definition K1 :: key where
  "K1 = ''img/product/thumbnail/p1/p1_1700000000000_aaaaaaaa.png''"

definition K2 :: key where
  "K2 = ''img/product/thumbnail/p1/p1_1700000000001_bbbbbbbb.png''"

definition K3 :: key where
  "K3 = ''img/product/p1/p1_1700000000002_cccccccc.png''"

definition K4 :: key where
  "K4 = ''img/product/p1/p1_1700000000003_dddddddd.png''"

definition K5 :: key where
  "K5 = ''img/category/thumbnail/c1/c1_1700000000004_eeeeeeee.png''"

fun dec :: "nat \<Rightarrow> string" where
  "dec n = (if n < 10 then [''0123456789'' ! n] else dec (n div 10) @ [''0123456789'' ! (n mod 10)])"

definition keys2500 :: "key list" where
  "keys2500 = map (\<lambda>i. PRODUCT_THUMBNAIL_PREFIX @ dec i) [0..<2500]"

definition world_A :: world where
  "world_A = \<lparr>products = [\<lparr>images = [], thumbnail = Some K1\<rparr>], categories = [],
              bucket = [K1, K2], undeletable = [], connected = True, calls = [],
              flagAtCall = [], isCleanupRunning = False\<rparr>"

definition world_B :: world where
  "world_B = \<lparr>products = [\<lparr>images = [K3], thumbnail = None\<rparr>], categories = [],
              bucket = [], undeletable = [], connected = True, calls = [],
              flagAtCall = [], isCleanupRunning = False\<rparr>"

definition world_C :: world where
  "world_C = \<lparr>products = [\<lparr>images = [K3], thumbnail = Some K1\<rparr>], categories = [],
              bucket = [K1, K2], undeletable = [], connected = True, calls = [],
              flagAtCall = [], isCleanupRunning = False\<rparr>"

definition world_D :: world where
  "world_D = \<lparr>products = [\<lparr>images = [K3], thumbnail = None\<rparr>],
              categories = [\<lparr>cat_thumbnail = Some K5\<rparr>],
              bucket = [], undeletable = [], connected = True, calls = [],
              flagAtCall = [], isCleanupRunning = False\<rparr>"

definition world_E :: world where
  "world_E = \<lparr>products = [\<lparr>images = [K3, ''data/banner.png''],
                           thumbnail = Some ''https://cdn.example.com/t.png''\<rparr>],
              categories = [\<lparr>cat_thumbnail = Some K5\<rparr>],
              bucket = [K2, ''data/banner.png''], undeletable = [], connected = True, calls = [],
              flagAtCall = [], isCleanupRunning = False\<rparr>"

definition world_T :: world where
  "world_T = \<lparr>products = [\<lparr>images = [], thumbnail = Some K4\<rparr>], categories = [],
              bucket = [], undeletable = [], connected = True, calls = [],
              flagAtCall = [], isCleanupRunning = False\<rparr>"

definition world_L :: world where
  "world_L = world_A\<lparr>undeletable := [K2]\<rparr>"

definition world_busy :: world where
  "world_busy = world_C\<lparr>isCleanupRunning := True\<rparr>"

definition no_failure :: "call \<Rightarrow> bool" where
  "no_failure c = False"

definition thumbnail_listing_fails :: "call \<Rightarrow> bool" where
  "thumbnail_listing_fails c = (c = ListObjects PRODUCT_THUMBNAIL_PREFIX None)"

fun delete_fails :: "call \<Rightarrow> bool" where
  "delete_fails (DeleteObjects ks) = True"
| "delete_fails c = False"

fun pull_fails :: "call \<Rightarrow> bool" where
  "pull_fails (PullProductImages ks) = True"
| "pull_fails c = False"

definition no_fs_failure :: "fs_call \<Rightarrow> bool" where
  "no_fs_failure c = False"

definition temp_A :: tempfs where
  "temp_A = \<lparr>uploadDir = Some
               [(''old.png'', \<lparr>mtimeMs = 1000, sizeBytes = 10, isDirectory = False, isFile = True\<rparr>),
                (''new.png'', \<lparr>mtimeMs = 9000000, sizeBytes = 20, isDirectory = False, isFile = True\<rparr>),
                (''olddir'', \<lparr>mtimeMs = 1000, sizeBytes = 4096, isDirectory = True, isFile = False\<rparr>)],
             fscalls = [], flagAtFsCall = [], isTempCleanupRunning = False\<rparr>"

definition temp_busy :: tempfs where
  "temp_busy = temp_A\<lparr>isTempCleanupRunning := True\<rparr>"

section \<open>Frame lemmas\<close>

declare getR2KeysLoop.simps [simp del]
declare deleteBatches.simps [simp del]

lemma extends_refl: "extends P w w"
  by (simp add: extends_def)

lemma extends_trans: "extends P w w1 \<Longrightarrow> extends P w1 w2 \<Longrightarrow> extends P w w2"
  by (auto simp: extends_def)

lemma extends_weaken: "extends P w w' \<Longrightarrow> (\<And>c. P c \<Longrightarrow> Q c) \<Longrightarrow> extends Q w w'"
  by (auto simp: extends_def)

lemma extends_io: "P c \<Longrightarrow> extends P w (io c w)"
  by (simp add: extends_def io_def)

lemma extends_new_calls: "extends P w w' \<Longrightarrow> \<forall>c \<in> set (new_calls w w'). P c"
  by (auto simp: extends_def new_calls_def)

lemma same_stores_refl: "same_stores w w"
  by (simp add: same_stores_def)

lemma same_stores_trans: "same_stores w w1 \<Longrightarrow> same_stores w1 w2 \<Longrightarrow> same_stores w w2"
  by (simp add: same_stores_def)

lemma db_frame:
  assumes "getMediaKeysFromDatabase F w = (w', r)"
  shows "same_stores w w' \<and> extends (\<lambda>c. c = FindProducts \<or> c = FindCategories) w w'"
  using assms
  by (auto simp: getMediaKeysFromDatabase_def executeDbOperation_def io_def Let_def same_stores_def
                 extends_def split: if_splits)

lemma r2loop_frame:
  "getR2KeysLoop F pfx tok mk w = (w', r) \<Longrightarrow>
     same_stores w w' \<and> extends (\<lambda>c. \<exists>t. c = ListObjects pfx t) w w'"
proof (induction F pfx tok mk w arbitrary: w' r rule: getR2KeysLoop.induct)
  case (1 F pfx tok mk w)
  let ?w1 = "io (ListObjects pfx tok) w"
  have step: "same_stores w ?w1 \<and> extends (\<lambda>c. \<exists>t. c = ListObjects pfx t) w ?w1"
    by (simp add: same_stores_def extends_def io_def)
  show ?case
  proof (cases "F (ListObjects pfx tok)")
    case True
    with "1.prems" have "w' = ?w1"
      by (subst (asm) getR2KeysLoop.simps) auto
    with step show ?thesis by simp
  next
    case False
    show ?thesis
    proof (cases "snd (listObjectsV2 (bucket ?w1) pfx 1000 tok)")
      case None
      with False "1.prems" have "w' = ?w1"
        by (subst (asm) getR2KeysLoop.simps) (auto simp: Let_def)
      with step show ?thesis by simp
    next
      case (Some t)
      let ?mk = "foldl (\<lambda>s k. if k \<noteq> [] then set_add s k else s) mk
                   (fst (listObjectsV2 (bucket ?w1) pfx 1000 tok))"
      from False Some "1.prems" have rec: "getR2KeysLoop F pfx (Some t) ?mk ?w1 = (w', r)"
        by (subst (asm) getR2KeysLoop.simps) (simp add: Let_def)
      from "1.IH"[OF refl False refl refl Some rec] step
      show ?thesis by (blast intro: same_stores_trans extends_trans)
    qed
  qed
qed

lemma r2_frame:
  assumes "getMediaKeysFromR2 F w = (w', r)"
  shows "same_stores w w' \<and> extends (\<lambda>c. \<exists>p t. c = ListObjects p t \<and> managed_prefix p) w w'"
proof -
  let ?P = "\<lambda>c. \<exists>p t. c = ListObjects p t \<and> managed_prefix p"
  have lift: "same_stores a b \<and> extends ?P a b"
    if "getR2KeysLoop F p None mk a = (b, x)" and "managed_prefix p" for a b p mk x
    using r2loop_frame[OF that(1)] that(2) by (auto elim!: extends_weaken)
  obtain w1 r1 where s1: "getR2KeysLoop F PRODUCT_IMAGE_PREFIX None [] w = (w1, r1)"
    by (cases "getR2KeysLoop F PRODUCT_IMAGE_PREFIX None [] w")
  have f1: "same_stores w w1 \<and> extends ?P w w1"
    by (rule lift[OF s1]) (simp add: managed_prefix_def)
  show ?thesis
  proof (cases r1)
    case (Inl e)
    with assms s1 have "w' = w1" by (simp add: getMediaKeysFromR2_def getR2KeysWithPrefix_def)
    with f1 show ?thesis by simp
  next
    case (Inr mk1)
    obtain w2 r2 where s2: "getR2KeysLoop F PRODUCT_THUMBNAIL_PREFIX None mk1 w1 = (w2, r2)"
      by (cases "getR2KeysLoop F PRODUCT_THUMBNAIL_PREFIX None mk1 w1")
    have f2: "same_stores w1 w2 \<and> extends ?P w1 w2"
      by (rule lift[OF s2]) (simp add: managed_prefix_def)
    show ?thesis
    proof (cases r2)
      case (Inl e)
      with assms s1 s2 Inr have "w' = w2" by (simp add: getMediaKeysFromR2_def getR2KeysWithPrefix_def)
      with f1 f2 show ?thesis by (blast intro: same_stores_trans extends_trans)
    next
      case (Inr mk2)
      with assms s1 s2 \<open>r1 = Inr mk1\<close>
      have s3: "getR2KeysLoop F CATEGORY_THUMBNAIL_PREFIX None mk2 w2 = (w', r)"
        by (simp add: getMediaKeysFromR2_def getR2KeysWithPrefix_def)
      have f3: "same_stores w2 w' \<and> extends ?P w2 w'"
        by (rule lift[OF s3]) (simp add: managed_prefix_def)
      from f1 f2 f3 show ?thesis by (blast intro: same_stores_trans extends_trans)
    qed
  qed
qed

lemma deleteBatches_frame:
  "deleteBatches F ks i w = (w', r) \<Longrightarrow>
     products w' = products w \<and> categories w' = categories w \<and>
     connected w' = connected w \<and> isCleanupRunning w' = isCleanupRunning w \<and>
     undeletable w' = undeletable w"
proof (induction F ks i w arbitrary: w' r rule: deleteBatches.induct)
  case (1 F ks i w)
  show ?case
  proof (cases "i < length ks")
    case False
    with "1.prems" show ?thesis by (subst (asm) deleteBatches.simps) simp
  next
    case True
    let ?b = "slice ks i (i + batchSize)"
    let ?w1 = "io (DeleteObjects ?b) w"
    show ?thesis
    proof (cases "F (DeleteObjects ?b)")
      case True
      with \<open>i < length ks\<close> "1.prems" show ?thesis
        by (subst (asm) deleteBatches.simps) (auto simp: io_def Let_def)
    next
      case False
      with \<open>i < length ks\<close> "1.prems"
      have rec: "deleteBatches F ks (i + batchSize) (?w1\<lparr>bucket := fst (deleteObjects (undeletable ?w1) ?b (bucket ?w1))\<rparr>) = (w', r)"
        by (subst (asm) deleteBatches.simps) (simp add: Let_def)
      from "1.IH"[OF \<open>i < length ks\<close> refl refl False rec] show ?thesis by (simp add: io_def)
    qed
  qed
qed

lemma delete_frame:
  "deleteOrphanedR2Files F ks w = (w', r) \<Longrightarrow>
     products w' = products w \<and> categories w' = categories w \<and>
     connected w' = connected w \<and> isCleanupRunning w' = isCleanupRunning w \<and>
     undeletable w' = undeletable w"
  by (auto simp: deleteOrphanedR2Files_def dest: deleteBatches_frame split: if_splits)

lemma runUpdate_frame:
  assumes "\<And>w. bucket (eff w) = bucket w \<and> connected (eff w) = connected w \<and>
                isCleanupRunning (eff w) = isCleanupRunning w \<and> undeletable (eff w) = undeletable w"
  shows "bucket (fst (runUpdate F c eff st)) = bucket (fst st) \<and>
         connected (fst (runUpdate F c eff st)) = connected (fst st) \<and>
         isCleanupRunning (fst (runUpdate F c eff st)) = isCleanupRunning (fst st) \<and>
         undeletable (fst (runUpdate F c eff st)) = undeletable (fst st)"
  using assms by (simp add: runUpdate_def io_def Let_def)

lemma dangling_frame:
  assumes "cleanupDanglingDatabaseReferences F ks w = (w', r)"
  shows "bucket w' = bucket w \<and> connected w' = connected w \<and> isCleanupRunning w' = isCleanupRunning w \<and>
         undeletable w' = undeletable w"
proof -
  have "bucket (fst (cleanupDanglingDatabaseReferences F ks w)) = bucket w \<and>
        connected (fst (cleanupDanglingDatabaseReferences F ks w)) = connected w \<and>
        isCleanupRunning (fst (cleanupDanglingDatabaseReferences F ks w)) = isCleanupRunning w \<and>
        undeletable (fst (cleanupDanglingDatabaseReferences F ks w)) = undeletable w"
    by (simp add: cleanupDanglingDatabaseReferences_def executeDbOperation_def Let_def runUpdate_frame)
  with assms show ?thesis by simp
qed

section \<open>Run exclusivity\<close>

lemma holds_flag_refl: "holds_flag w w"
  by (simp add: holds_flag_def)

lemma holds_flag_trans:
  assumes "holds_flag w w1" and "holds_flag w1 w2"
  shows "holds_flag w w2"
proof -
  from assms(1) obtain cs1 where 1: "isCleanupRunning w1 = isCleanupRunning w"
    "connected w1 = connected w" "calls w1 = calls w @ cs1"
    "flagAtCall w1 = flagAtCall w @ replicate (length cs1) (isCleanupRunning w)"
    by (auto simp: holds_flag_def)
  from assms(2) obtain cs2 where 2: "isCleanupRunning w2 = isCleanupRunning w1"
    "connected w2 = connected w1" "calls w2 = calls w1 @ cs2"
    "flagAtCall w2 = flagAtCall w1 @ replicate (length cs2) (isCleanupRunning w1)"
    by (auto simp: holds_flag_def)
  have "calls w2 = calls w @ (cs1 @ cs2)" using 1 2 by simp
  moreover have "flagAtCall w2 = flagAtCall w @ replicate (length (cs1 @ cs2)) (isCleanupRunning w)"
    using 1 2 by (simp add: replicate_add)
  ultimately show ?thesis using 1 2 unfolding holds_flag_def by metis
qed

lemma holds_flag_io: "holds_flag w (io c w)"
  by (simp add: holds_flag_def io_def)

lemma holds_flag_bucket: "holds_flag w (w\<lparr>bucket := b\<rparr>)"
  by (simp add: holds_flag_def)

lemma holds_flag_callsE: "holds_flag w w' \<Longrightarrow> \<exists>cs. calls w' = calls w @ cs"
  by (auto simp: holds_flag_def)

lemma db_holds_flag:
  assumes "getMediaKeysFromDatabase F w = (w', r)"
  shows "holds_flag w w'" and "connected w \<Longrightarrow> \<exists>cs. calls w' = calls w @ FindProducts # cs"
proof -
  have cases: "w' = w \<and> \<not> connected w \<or> w' = io FindProducts w \<or>
               w' = io FindCategories (io FindProducts w)"
    using assms
    by (auto simp: getMediaKeysFromDatabase_def executeDbOperation_def Let_def split: if_splits)
  have a: "holds_flag w (io FindProducts w)" by (rule holds_flag_io)
  have b: "holds_flag w (io FindCategories (io FindProducts w))"
    by (rule holds_flag_trans[OF holds_flag_io holds_flag_io])
  show "holds_flag w w'" using cases a b holds_flag_refl by auto
  show "\<exists>cs. calls w' = calls w @ FindProducts # cs" if "connected w"
    using cases that by (auto simp: io_def)
qed

lemma r2loop_holds_flag:
  "getR2KeysLoop F pfx tok mk w = (w', r) \<Longrightarrow> holds_flag w w'"
proof (induction F pfx tok mk w arbitrary: w' r rule: getR2KeysLoop.induct)
  case (1 F pfx tok mk w)
  let ?w1 = "io (ListObjects pfx tok) w"
  have step: "holds_flag w ?w1" by (rule holds_flag_io)
  show ?case
  proof (cases "F (ListObjects pfx tok)")
    case True
    with "1.prems" have "w' = ?w1"
      by (subst (asm) getR2KeysLoop.simps) auto
    with step show ?thesis by simp
  next
    case False
    show ?thesis
    proof (cases "snd (listObjectsV2 (bucket ?w1) pfx 1000 tok)")
      case None
      with False "1.prems" have "w' = ?w1"
        by (subst (asm) getR2KeysLoop.simps) (auto simp: Let_def)
      with step show ?thesis by simp
    next
      case (Some t)
      let ?mk = "foldl (\<lambda>s k. if k \<noteq> [] then set_add s k else s) mk
                   (fst (listObjectsV2 (bucket ?w1) pfx 1000 tok))"
      from False Some "1.prems" have rec: "getR2KeysLoop F pfx (Some t) ?mk ?w1 = (w', r)"
        by (subst (asm) getR2KeysLoop.simps) (simp add: Let_def)
      from "1.IH"[OF refl False refl refl Some rec] step
      show ?thesis by (blast intro: holds_flag_trans)
    qed
  qed
qed

lemma r2_holds_flag:
  assumes "getMediaKeysFromR2 F w = (w', r)"
  shows "holds_flag w w'"
proof -
  obtain w1 r1 where s1: "getR2KeysLoop F PRODUCT_IMAGE_PREFIX None [] w = (w1, r1)"
    by (cases "getR2KeysLoop F PRODUCT_IMAGE_PREFIX None [] w")
  note f1 = r2loop_holds_flag[OF s1]
  show ?thesis
  proof (cases r1)
    case (Inl e)
    with assms s1 have "w' = w1" by (simp add: getMediaKeysFromR2_def getR2KeysWithPrefix_def)
    with f1 show ?thesis by simp
  next
    case (Inr mk1)
    obtain w2 r2 where s2: "getR2KeysLoop F PRODUCT_THUMBNAIL_PREFIX None mk1 w1 = (w2, r2)"
      by (cases "getR2KeysLoop F PRODUCT_THUMBNAIL_PREFIX None mk1 w1")
    note f2 = holds_flag_trans[OF f1 r2loop_holds_flag[OF s2]]
    show ?thesis
    proof (cases r2)
      case (Inl e)
      with assms s1 s2 Inr have "w' = w2" by (simp add: getMediaKeysFromR2_def getR2KeysWithPrefix_def)
      with f2 show ?thesis by simp
    next
      case (Inr mk2)
      with assms s1 s2 \<open>r1 = Inr mk1\<close>
      have s3: "getR2KeysLoop F CATEGORY_THUMBNAIL_PREFIX None mk2 w2 = (w', r)"
        by (simp add: getMediaKeysFromR2_def getR2KeysWithPrefix_def)
      show ?thesis by (rule holds_flag_trans[OF f2 r2loop_holds_flag[OF s3]])
    qed
  qed
qed

lemma deleteBatches_holds_flag:
  "deleteBatches F ks i w = (w', r) \<Longrightarrow> holds_flag w w'"
proof (induction F ks i w arbitrary: w' r rule: deleteBatches.induct)
  case (1 F ks i w)
  show ?case
  proof (cases "i < length ks")
    case False
    with "1.prems" show ?thesis by (subst (asm) deleteBatches.simps) (simp add: holds_flag_refl)
  next
    case True
    let ?b = "slice ks i (i + batchSize)"
    let ?w1 = "io (DeleteObjects ?b) w"
    let ?w2 = "?w1\<lparr>bucket := fst (deleteObjects (undeletable ?w1) ?b (bucket ?w1))\<rparr>"
    have step: "holds_flag w ?w1" by (rule holds_flag_io)
    show ?thesis
    proof (cases "F (DeleteObjects ?b)")
      case True
      with \<open>i < length ks\<close> "1.prems" have "w' = ?w1"
        by (subst (asm) deleteBatches.simps) (auto simp: Let_def)
      with step show ?thesis by simp
    next
      case False
      with \<open>i < length ks\<close> "1.prems"
      have rec: "deleteBatches F ks (i + batchSize) ?w2 = (w', r)"
        by (subst (asm) deleteBatches.simps) (simp add: Let_def)
      have "holds_flag w ?w2" by (rule holds_flag_trans[OF step holds_flag_bucket])
      with "1.IH"[OF \<open>i < length ks\<close> refl refl False rec] show ?thesis
        by (blast intro: holds_flag_trans)
    qed
  qed
qed

lemma delete_holds_flag:
  "deleteOrphanedR2Files F ks w = (w', r) \<Longrightarrow> holds_flag w w'"
  by (auto simp: deleteOrphanedR2Files_def holds_flag_refl dest: deleteBatches_holds_flag split: if_splits)

lemma runUpdate_holds_flag:
  assumes "\<And>w. holds_flag w (eff w)"
  shows "holds_flag (fst st) (fst (runUpdate F c eff st))"
  using holds_flag_io[of "fst st" c] holds_flag_trans[OF holds_flag_io assms, of "fst st" c]
  by (simp add: runUpdate_def Let_def)

lemma holds_flag_products: "holds_flag w (w\<lparr>products := ps\<rparr>)"
  by (simp add: holds_flag_def)

lemma holds_flag_categories: "holds_flag w (w\<lparr>categories := cs\<rparr>)"
  by (simp add: holds_flag_def)

lemma dangling_holds_flag:
  assumes "cleanupDanglingDatabaseReferences F ks w = (w', r)"
  shows "holds_flag w w'"
proof -
  let ?a = "productImageKeys ks" and ?b = "productThumbnailKeys ks" and ?c = "categoryThumbnailKeys ks"
  let ?s0 = "(w, Inr ()) :: world \<times> (error + unit)"
  let ?s1 = "if length ?a > 0
             then runUpdate F (PullProductImages ?a)
                    (\<lambda>w. w\<lparr>products := map (pullImages ?a) (products w)\<rparr>) ?s0
             else ?s0"
  let ?s2 = "if length ?b > 0
             then runUpdate F (NullProductThumbnails ?b)
                    (\<lambda>w. w\<lparr>products := map (nullProductThumbnail ?b) (products w)\<rparr>) ?s1
             else ?s1"
  let ?s3 = "if length ?c > 0
             then runUpdate F (NullCategoryThumbnails ?c)
                    (\<lambda>w. w\<lparr>categories := map (nullCategoryThumbnail ?c) (categories w)\<rparr>) ?s2
             else ?s2"
  have 1: "holds_flag w (fst ?s1)"
    using runUpdate_holds_flag[of "\<lambda>w. w\<lparr>products := map (pullImages ?a) (products w)\<rparr>" ?s0 F]
    by (simp add: holds_flag_products holds_flag_refl)
  have "holds_flag (fst ?s1) (fst ?s2)"
    using runUpdate_holds_flag[of "\<lambda>w. w\<lparr>products := map (nullProductThumbnail ?b) (products w)\<rparr>" ?s1 F]
    by (simp add: holds_flag_products holds_flag_refl)
  with 1 have 2: "holds_flag w (fst ?s2)" by (rule holds_flag_trans)
  have "holds_flag (fst ?s2) (fst ?s3)"
    using runUpdate_holds_flag[of "\<lambda>w. w\<lparr>categories := map (nullCategoryThumbnail ?c) (categories w)\<rparr>" ?s2 F]
    by (simp add: holds_flag_categories holds_flag_refl)
  with 2 have 3: "holds_flag w (fst ?s3)" by (rule holds_flag_trans)
  have "w' = w \<or> w' = fst ?s3"
    using assms
    by (auto simp: cleanupDanglingDatabaseReferences_def executeDbOperation_def Let_def
                   productImageKeys_def productThumbnailKeys_def categoryThumbnailKeys_def
             split: if_splits)
  with 3 holds_flag_refl show ?thesis by auto
qed

lemma try_holds_flag:
  assumes t: "cleanupMediaFilesTry F w = (w', r)"
  shows "holds_flag w w'" and "connected w \<Longrightarrow> \<exists>cs. calls w' = calls w @ FindProducts # cs"
proof -
  obtain w1 r1 where s1: "getMediaKeysFromDatabase F w = (w1, r1)"
    by (cases "getMediaKeysFromDatabase F w")
  obtain w2 r2 where s2: "getMediaKeysFromR2 F w1 = (w2, r2)"
    by (cases "getMediaKeysFromR2 F w1")
  obtain w3 r3 where s3: "deleteOrphanedR2Files F
      (filter (\<lambda>k. k \<notin> set (projr r1)) (projr r2)) w2 = (w3, r3)"
    by (cases "deleteOrphanedR2Files F (filter (\<lambda>k. k \<notin> set (projr r1)) (projr r2)) w2")
  obtain w4 r4 where s4: "cleanupDanglingDatabaseReferences F
      (filter (\<lambda>k. k \<notin> set (projr r2)) (projr r1)) w3 = (w4, r4)"
    by (cases "cleanupDanglingDatabaseReferences F (filter (\<lambda>k. k \<notin> set (projr r2)) (projr r1)) w3")
  have h1: "holds_flag w1 w1" by (rule holds_flag_refl)
  have h2: "holds_flag w1 w2" by (rule r2_holds_flag[OF s2])
  have h3: "holds_flag w1 w3" by (rule holds_flag_trans[OF h2 delete_holds_flag[OF s3]])
  have h4: "holds_flag w1 w4" by (rule holds_flag_trans[OF h3 dangling_holds_flag[OF s4]])
  have "w' = w1 \<or> w' = w2 \<or> w' = w3 \<or> w' = w4"
    using t s1 s2 s3 s4
    by (auto simp: cleanupMediaFilesTry_def Let_def split: sum.splits)
  then have rest: "holds_flag w1 w'" using h1 h2 h3 h4 by auto
  show "holds_flag w w'" by (rule holds_flag_trans[OF db_holds_flag(1)[OF s1] rest])
  show "\<exists>cs. calls w' = calls w @ FindProducts # cs" if "connected w"
  proof -
    from db_holds_flag(2)[OF s1 that] obtain cs where "calls w1 = calls w @ FindProducts # cs" ..
    moreover from holds_flag_callsE[OF rest] obtain ds where "calls w' = calls w1 @ ds" ..
    ultimately have "calls w' = calls w @ FindProducts # (cs @ ds)" by simp
    then show ?thesis ..
  qed
qed

lemma holds_temp_flag_refl: "holds_temp_flag t t"
  by (simp add: holds_temp_flag_def)

lemma holds_temp_flag_trans:
  assumes "holds_temp_flag t t1" and "holds_temp_flag t1 t2"
  shows "holds_temp_flag t t2"
proof -
  from assms(1) obtain cs1 where 1: "isTempCleanupRunning t1 = isTempCleanupRunning t"
    "fscalls t1 = fscalls t @ cs1"
    "flagAtFsCall t1 = flagAtFsCall t @ replicate (length cs1) (isTempCleanupRunning t)"
    by (auto simp: holds_temp_flag_def)
  from assms(2) obtain cs2 where 2: "isTempCleanupRunning t2 = isTempCleanupRunning t1"
    "fscalls t2 = fscalls t1 @ cs2"
    "flagAtFsCall t2 = flagAtFsCall t1 @ replicate (length cs2) (isTempCleanupRunning t1)"
    by (auto simp: holds_temp_flag_def)
  have "fscalls t2 = fscalls t @ (cs1 @ cs2)" using 1 2 by simp
  moreover have "flagAtFsCall t2 = flagAtFsCall t @ replicate (length (cs1 @ cs2)) (isTempCleanupRunning t)"
    using 1 2 by (simp add: replicate_add)
  ultimately show ?thesis using 1 2 unfolding holds_temp_flag_def by metis
qed

lemma holds_temp_flag_fio: "holds_temp_flag t (fio c t)"
  by (simp add: holds_temp_flag_def fio_def)

lemma holds_temp_flag_unlink: "holds_temp_flag t (unlink f t)"
  by (simp add: holds_temp_flag_def unlink_def)

lemma holds_temp_flag_dir: "holds_temp_flag t (t\<lparr>uploadDir := d\<rparr>)"
  by (simp add: holds_temp_flag_def)

lemma processTempFile_holds_flag:
  "holds_temp_flag (fst acc) (fst (processTempFile G now file acc))"
proof -
  obtain t fd ts where acc: "acc = (t, fd, ts)" by (cases acc)
  let ?t1 = "fio (StatSync file) t"
  let ?t2 = "fio (UnlinkSync file) ?t1"
  have 1: "holds_temp_flag t ?t1" by (rule holds_temp_flag_fio)
  have 2: "holds_temp_flag t ?t2" by (rule holds_temp_flag_trans[OF 1 holds_temp_flag_fio])
  have 3: "holds_temp_flag t (unlink file ?t2)" by (rule holds_temp_flag_trans[OF 2 holds_temp_flag_unlink])
  have "fst (processTempFile G now file acc) \<in> {?t1, ?t2, unlink file ?t2}"
    by (simp add: acc processTempFile_def Let_def split: option.splits)
  with 1 2 3 show ?thesis by (auto simp: acc)
qed

lemma processTempFiles_holds_flag:
  "holds_temp_flag (fst acc) (fst (processTempFiles G now files acc))"
proof (induction files arbitrary: acc)
  case Nil
  show ?case by (simp add: holds_temp_flag_refl)
next
  case (Cons f fs)
  show ?case
    using holds_temp_flag_trans[OF processTempFile_holds_flag[of acc G now f]
            Cons.IH[of "processTempFile G now f acc"]]
    by simp
qed

lemma temp_try_holds_flag:
  "holds_temp_flag t (fst (cleanupOldTempFilesTry G now t))"
  "\<exists>cs. fscalls (fst (cleanupOldTempFilesTry G now t)) = fscalls t @ ExistsSync # cs"
proof -
  let ?t1 = "fio ExistsSync t"
  let ?m = "fio MkdirSync ?t1"
  let ?r = "fio ReaddirSync ?t1"
  let ?p = "fst (processTempFiles G now (map fst (dirEntries t)) (?r, 0, 0))"
  have 1: "holds_temp_flag t ?t1" by (rule holds_temp_flag_fio)
  have m: "holds_temp_flag ?t1 ?m" by (rule holds_temp_flag_fio)
  have m': "holds_temp_flag ?t1 (?m\<lparr>uploadDir := Some []\<rparr>)"
    by (rule holds_temp_flag_trans[OF m holds_temp_flag_dir])
  have r: "holds_temp_flag ?t1 ?r" by (rule holds_temp_flag_fio)
  have "holds_temp_flag ?r ?p"
    using processTempFiles_holds_flag[of "(?r, 0, 0)" G now "map fst (dirEntries t)"] by simp
  with r have p: "holds_temp_flag ?t1 ?p" by (rule holds_temp_flag_trans)
  have "fst (cleanupOldTempFilesTry G now t) \<in> {?m, ?m\<lparr>uploadDir := Some []\<rparr>, ?r, ?p}"
    by (auto simp: cleanupOldTempFilesTry_def Let_def dirEntries_def fio_def split: option.splits prod.splits)
  then have rest: "holds_temp_flag ?t1 (fst (cleanupOldTempFilesTry G now t))"
    using m m' r p by auto
  show "holds_temp_flag t (fst (cleanupOldTempFilesTry G now t))"
    by (rule holds_temp_flag_trans[OF 1 rest])
  from rest obtain cs where "fscalls (fst (cleanupOldTempFilesTry G now t)) = fscalls ?t1 @ cs"
    by (auto simp: holds_temp_flag_def)
  then have "fscalls (fst (cleanupOldTempFilesTry G now t)) = fscalls t @ ExistsSync # cs"
    by (simp add: fio_def)
  then show "\<exists>cs. fscalls (fst (cleanupOldTempFilesTry G now t)) = fscalls t @ ExistsSync # cs" ..
qed

text \<open>
  Claim C3. For each of the two jobs: a call made while the job's running flag is set
  returns the zero result and leaves the whole state as it was, the log of requests
  included, so no storage, database or filesystem request is made. A call made while the
  flag is not set is a run: it sends requests (the first one is the query on the products
  when the database is connected, and the check of the staging directory for the temp
  job), every request it sends is sent with the flag set, whatever fails, and the flag is
  not set when the call returns: Idle, Running, Idle. So a call that arrives while a run
  waits for the answer to one of its requests finds the flag set and returns at once.
\<close>

theorem running_flag_guards_and_resets:
  "(isCleanupRunning w \<longrightarrow> cleanupMediaFiles F w = (w, zero_counts)) \<and>
   (\<not> isCleanupRunning w \<longrightarrow>
      \<not> isCleanupRunning (fst (cleanupMediaFiles F w)) \<and>
      new_flags w (fst (cleanupMediaFiles F w))
        = replicate (length (new_calls w (fst (cleanupMediaFiles F w)))) True \<and>
      (connected w \<longrightarrow> take 1 (new_calls w (fst (cleanupMediaFiles F w))) = [FindProducts])) \<and>
   (isTempCleanupRunning t \<longrightarrow> cleanupOldTempFiles G now t = (t, zero_temp)) \<and>
   (\<not> isTempCleanupRunning t \<longrightarrow>
      \<not> isTempCleanupRunning (fst (cleanupOldTempFiles G now t)) \<and>
      new_fsflags t (fst (cleanupOldTempFiles G now t))
        = replicate (length (new_fscalls t (fst (cleanupOldTempFiles G now t)))) True \<and>
      take 1 (new_fscalls t (fst (cleanupOldTempFiles G now t))) = [ExistsSync])"
proof -
  have media: "\<not> isCleanupRunning (fst (cleanupMediaFiles F w)) \<and>
      new_flags w (fst (cleanupMediaFiles F w))
        = replicate (length (new_calls w (fst (cleanupMediaFiles F w)))) True \<and>
      (connected w \<longrightarrow> take 1 (new_calls w (fst (cleanupMediaFiles F w))) = [FindProducts])"
    if idle: "\<not> isCleanupRunning w"
  proof -
    let ?w0 = "w\<lparr>isCleanupRunning := True\<rparr>"
    obtain w' r where t: "cleanupMediaFilesTry F ?w0 = (w', r)"
      by (cases "cleanupMediaFilesTry F ?w0")
    have res: "fst (cleanupMediaFiles F w) = w'\<lparr>isCleanupRunning := False\<rparr>"
      using idle t by (simp add: cleanupMediaFiles_def)
    from try_holds_flag(1)[OF t] obtain cs where
      cs: "calls w' = calls w @ cs" "flagAtCall w' = flagAtCall w @ replicate (length cs) True"
      by (auto simp: holds_flag_def)
    have first: "take 1 cs = [FindProducts]" if "connected w"
    proof -
      from try_holds_flag(2)[OF t] that obtain ds where "calls w' = calls w @ FindProducts # ds"
        by auto
      with cs(1) have "cs = FindProducts # ds" by simp
      then show ?thesis by simp
    qed
    show ?thesis
      unfolding res using cs first by (simp add: new_calls_def new_flags_def)
  qed
  have temp: "\<not> isTempCleanupRunning (fst (cleanupOldTempFiles G now t)) \<and>
      new_fsflags t (fst (cleanupOldTempFiles G now t))
        = replicate (length (new_fscalls t (fst (cleanupOldTempFiles G now t)))) True \<and>
      take 1 (new_fscalls t (fst (cleanupOldTempFiles G now t))) = [ExistsSync]"
    if idle: "\<not> isTempCleanupRunning t"
  proof -
    let ?t0 = "t\<lparr>isTempCleanupRunning := True\<rparr>"
    let ?t' = "fst (cleanupOldTempFilesTry G now ?t0)"
    have res: "fst (cleanupOldTempFiles G now t) = ?t'\<lparr>isTempCleanupRunning := False\<rparr>"
      using idle by (simp add: cleanupOldTempFiles_def split: prod.splits)
    from temp_try_holds_flag(1)[where t = ?t0 and G = G and now = now] obtain cs where
      cs: "fscalls ?t' = fscalls t @ cs" "flagAtFsCall ?t' = flagAtFsCall t @ replicate (length cs) True"
      by (auto simp: holds_temp_flag_def)
    from temp_try_holds_flag(2)[where t = ?t0 and G = G and now = now] obtain ds where
      "fscalls ?t' = fscalls t @ ExistsSync # ds" by auto
    with cs(1) have "cs = ExistsSync # ds" by simp
    then have first: "take 1 cs = [ExistsSync]" by simp
    show ?thesis
      unfolding res using cs first by (simp add: new_fscalls_def new_fsflags_def)
  qed
  show ?thesis
    using media temp by (simp add: cleanupMediaFiles_def cleanupOldTempFiles_def)
qed

theorem running_flag_guards_and_resets_witness:
  "isCleanupRunning world_busy \<and>
   cleanupMediaFiles thumbnail_listing_fails world_busy = (world_busy, zero_counts) \<and>
   \<not> isCleanupRunning world_C \<and> connected world_C \<and>
   \<not> isCleanupRunning (fst (cleanupMediaFiles thumbnail_listing_fails world_C)) \<and>
   new_calls world_C (fst (cleanupMediaFiles thumbnail_listing_fails world_C))
     = [FindProducts, FindCategories,
        ListObjects PRODUCT_IMAGE_PREFIX None, ListObjects PRODUCT_THUMBNAIL_PREFIX None] \<and>
   new_flags world_C (fst (cleanupMediaFiles thumbnail_listing_fails world_C))
     = [True, True, True, True] \<and>
   isTempCleanupRunning temp_busy \<and>
   cleanupOldTempFiles no_fs_failure 10000000 temp_busy = (temp_busy, zero_temp) \<and>
   \<not> isTempCleanupRunning temp_A \<and>
   \<not> isTempCleanupRunning (fst (cleanupOldTempFiles no_fs_failure 10000000 temp_A)) \<and>
   new_fscalls temp_A (fst (cleanupOldTempFiles no_fs_failure 10000000 temp_A))
     = [ExistsSync, ReaddirSync, StatSync ''old.png'', UnlinkSync ''old.png'',
        StatSync ''new.png'', StatSync ''olddir''] \<and>
   new_fsflags temp_A (fst (cleanupOldTempFiles no_fs_failure 10000000 temp_A))
     = [True, True, True, True, True, True]"
proof -
  have busy: "isCleanupRunning world_busy" "isTempCleanupRunning temp_busy"
    by (simp_all add: world_busy_def temp_busy_def)
  have idle: "\<not> isCleanupRunning world_C" "connected world_C" "\<not> isTempCleanupRunning temp_A"
    by (simp_all add: world_C_def temp_A_def)
  have c: "new_calls world_C (fst (cleanupMediaFiles thumbnail_listing_fails world_C))
             = [FindProducts, FindCategories,
                ListObjects PRODUCT_IMAGE_PREFIX None, ListObjects PRODUCT_THUMBNAIL_PREFIX None]"
    by code_simp
  have f: "new_fscalls temp_A (fst (cleanupOldTempFiles no_fs_failure 10000000 temp_A))
             = [ExistsSync, ReaddirSync, StatSync ''old.png'', UnlinkSync ''old.png'',
                StatSync ''new.png'', StatSync ''olddir'']"
    by code_simp
  have n: "replicate (length [a, b, c, d]) True = [True, True, True, True]"
    "replicate (length [a, b, c, d, e, g]) True = [True, True, True, True, True, True]"
    for a b c d e g :: 'a
    by simp_all
  show ?thesis
    using busy idle
      running_flag_guards_and_resets[of world_busy thumbnail_listing_fails temp_busy no_fs_failure 10000000]
      running_flag_guards_and_resets[of world_C thumbnail_listing_fails temp_A no_fs_failure 10000000]
    by (simp add: c f n)
qed

section \<open>Fail-closed snapshots\<close>

text \<open>
  Claim C1. In a run that starts with the flag unset, if the collection of the referenced
  keys throws, or it succeeds and the listing of the bucket throws, then the run returns
  zero counts, the documents and the bucket are what they were, and none of the requests
  the run has sent is a delete or an update.
\<close>

theorem snapshot_failure_aborts:
  assumes idle: "\<not> isCleanupRunning w"
    and db: "getMediaKeysFromDatabase F (w\<lparr>isCleanupRunning := True\<rparr>) = (w1, r1)"
    and fails: "(\<exists>e. r1 = Inl e) \<or> (\<exists>e. snd (getMediaKeysFromR2 F w1) = Inl e)"
  shows "snd (cleanupMediaFiles F w) = zero_counts \<and>
         same_stores w (fst (cleanupMediaFiles F w)) \<and>
         filter is_mutation (new_calls w (fst (cleanupMediaFiles F w))) = []"
proof -
  let ?w0 = "w\<lparr>isCleanupRunning := True\<rparr>"
  obtain w2 r2 where r2: "getMediaKeysFromR2 F w1 = (w2, r2)"
    by (cases "getMediaKeysFromR2 F w1")
  have f1: "same_stores ?w0 w1" "extends (\<lambda>c. \<not> is_mutation c) ?w0 w1"
    using db_frame[OF db] by (auto elim!: extends_weaken)
  have f2: "same_stores w1 w2" "extends (\<lambda>c. \<not> is_mutation c) w1 w2"
    using r2_frame[OF r2] by (auto elim!: extends_weaken)
  have "\<exists>w' e. cleanupMediaFilesTry F ?w0 = (w', Inl e) \<and> (w' = w1 \<or> w' = w2)"
    using fails db r2 by (auto simp: cleanupMediaFilesTry_def split: sum.splits)
  then obtain w' e where t: "cleanupMediaFilesTry F ?w0 = (w', Inl e)" and w': "w' = w1 \<or> w' = w2"
    by blast
  have g: "same_stores ?w0 w' \<and> extends (\<lambda>c. \<not> is_mutation c) ?w0 w'"
    using w' f1 f2 by (blast intro: same_stores_trans extends_trans)
  have res: "cleanupMediaFiles F w = (w'\<lparr>isCleanupRunning := False\<rparr>, zero_counts)"
    using idle t by (simp add: cleanupMediaFiles_def)
  from g have "same_stores w (w'\<lparr>isCleanupRunning := False\<rparr>)"
    by (simp add: same_stores_def)
  moreover from g have "filter is_mutation (new_calls w (w'\<lparr>isCleanupRunning := False\<rparr>)) = []"
    by (auto simp: extends_def new_calls_def filter_empty_conv)
  ultimately show ?thesis using res by simp
qed

theorem snapshot_failure_aborts_witness:
  "\<not> isCleanupRunning world_C \<and>
   snd (getMediaKeysFromR2 thumbnail_listing_fails
          (fst (getMediaKeysFromDatabase thumbnail_listing_fails (world_C\<lparr>isCleanupRunning := True\<rparr>))))
     = Inl R2Error \<and>
   snd (cleanupMediaFiles thumbnail_listing_fails world_C) = zero_counts \<and>
   same_stores world_C (fst (cleanupMediaFiles thumbnail_listing_fails world_C)) \<and>
   filter is_mutation (new_calls world_C (fst (cleanupMediaFiles thumbnail_listing_fails world_C))) = []"
proof -
  have h1: "\<not> isCleanupRunning world_C"
    by (simp add: world_C_def)
  have h2: "snd (getMediaKeysFromR2 thumbnail_listing_fails
              (fst (getMediaKeysFromDatabase thumbnail_listing_fails (world_C\<lparr>isCleanupRunning := True\<rparr>))))
            = Inl R2Error"
    by code_simp
  show ?thesis
    using h1 h2
      snapshot_failure_aborts[OF h1 surjective_pairing, of thumbnail_listing_fails]
    by blast
qed

section \<open>Batched deletion\<close>

lemma batchCount_less: "j * batchSize < n \<longleftrightarrow> j < batchCount n"
proof -
  have "j < (n + 999) div 1000 \<longleftrightarrow> Suc j \<le> (n + 999) div 1000" by auto
  also have "\<dots> \<longleftrightarrow> Suc j * 1000 \<le> n + 999"
    by (rule less_eq_div_iff_mult_less_eq) simp
  also have "\<dots> \<longleftrightarrow> j * 1000 < n" by auto
  finally show ?thesis by (simp add: batchCount_def batchSize_def)
qed

lemma length_nthBatch: "length (nthBatch ks m) \<le> 1000"
  by (simp add: nthBatch_def slice_def batchSize_def)

lemma nthBatch_append_drop:
  "nthBatch ks j @ drop (Suc j * batchSize) ks = drop (j * batchSize) ks"
proof -
  have "nthBatch ks j = take batchSize (drop (j * batchSize) ks)"
    by (simp add: nthBatch_def slice_def)
  moreover have "drop (Suc j * batchSize) ks = drop batchSize (drop (j * batchSize) ks)"
    by (simp add: add.commute)
  ultimately show ?thesis by (simp only: append_take_drop_id)
qed

lemma concat_batches_from:
  "concat (map (nthBatch ks) [j..<batchCount (length ks)]) = drop (j * batchSize) ks"
proof (induction "batchCount (length ks) - j" arbitrary: j)
  case 0
  then have "\<not> j < batchCount (length ks)" by simp
  then have "\<not> j * batchSize < length ks" by (simp add: batchCount_less)
  then show ?case using 0 by simp
next
  case (Suc d)
  then have lt: "j < batchCount (length ks)" by simp
  have "concat (map (nthBatch ks) [Suc j..<batchCount (length ks)]) = drop (Suc j * batchSize) ks"
    using Suc by simp
  then show ?case using lt nthBatch_append_drop[of ks j] by (simp add: upt_conv_Cons)
qed

lemma deleteBatches_unfold_stop:
  "\<not> i < length ks \<Longrightarrow> deleteBatches F ks i w = (w, Inr ())"
  by (subst deleteBatches.simps) simp

lemma deleteBatches_unfold_fail:
  "j * batchSize < length ks \<Longrightarrow> F (DeleteObjects (nthBatch ks j)) \<Longrightarrow>
     deleteBatches F ks (j * batchSize) w = (io (DeleteObjects (nthBatch ks j)) w, Inl R2Error)"
  by (subst deleteBatches.simps) (simp add: Let_def nthBatch_def)

lemma deleteBatches_unfold_step:
  "j * batchSize < length ks \<Longrightarrow> \<not> F (DeleteObjects (nthBatch ks j)) \<Longrightarrow>
     deleteBatches F ks (j * batchSize) w =
       deleteBatches F ks (Suc j * batchSize)
         ((io (DeleteObjects (nthBatch ks j)) w)
            \<lparr>bucket := fst (deleteObjects (undeletable w) (nthBatch ks j) (bucket w))\<rparr>)"
  by (subst deleteBatches.simps) (simp add: Let_def nthBatch_def io_def add.commute)

lemma deleteBatches_success:
  "deleteBatches F ks (j * batchSize) w = (w', Inr u) \<Longrightarrow>
     calls w' = calls w @ map (\<lambda>m. DeleteObjects (nthBatch ks m)) [j..<batchCount (length ks)] \<and>
     bucket w' = fst (deleteObjects (undeletable w) (drop (j * batchSize) ks) (bucket w))"
proof (induction "batchCount (length ks) - j" arbitrary: j w)
  case 0
  then have "\<not> j * batchSize < length ks" by (simp add: batchCount_less)
  with 0 show ?case by (simp add: deleteBatches_unfold_stop deleteObjects_def)
next
  case (Suc d)
  then have lt: "j < batchCount (length ks)" by simp
  then have il: "j * batchSize < length ks" by (simp add: batchCount_less)
  have nf: "\<not> F (DeleteObjects (nthBatch ks j))"
    using Suc.prems il by (auto simp: deleteBatches_unfold_fail)
  let ?w1 = "(io (DeleteObjects (nthBatch ks j)) w)\<lparr>bucket := fst (deleteObjects (undeletable w) (nthBatch ks j) (bucket w))\<rparr>"
  have rec: "deleteBatches F ks (Suc j * batchSize) ?w1 = (w', Inr u)"
    using Suc.prems deleteBatches_unfold_step[of j ks F w, OF il nf] by simp
  have d: "d = batchCount (length ks) - Suc j" using Suc.hyps(2) by simp
  have ih: "calls w' = calls ?w1 @ map (\<lambda>m. DeleteObjects (nthBatch ks m)) [Suc j..<batchCount (length ks)]"
       "bucket w' = fst (deleteObjects (undeletable w) (drop (Suc j * batchSize) ks) (bucket ?w1))"
    using Suc.hyps(1)[OF d rec] by (simp_all add: io_def)
  have "fst (deleteObjects (undeletable w) (drop (Suc j * batchSize) ks)
               (fst (deleteObjects (undeletable w) (nthBatch ks j) (bucket w))))
          = fst (deleteObjects (undeletable w) (nthBatch ks j @ drop (Suc j * batchSize) ks) (bucket w))"
    by (auto simp: deleteObjects_def intro: filter_cong)
  then have "bucket w' = fst (deleteObjects (undeletable w) (drop (j * batchSize) ks) (bucket w))"
    using ih(2) nthBatch_append_drop[of ks j] by simp
  moreover have "calls w' = calls w @ map (\<lambda>m. DeleteObjects (nthBatch ks m)) [j..<batchCount (length ks)]"
    using ih(1) lt by (simp add: io_def upt_conv_Cons)
  ultimately show ?case by simp
qed

lemma deleteBatches_failure:
  "deleteBatches F ks (j * batchSize) w = (w', Inl e) \<Longrightarrow>
     \<exists>m. j \<le> m \<and> m < batchCount (length ks) \<and> F (DeleteObjects (nthBatch ks m)) \<and>
         calls w' = calls w @ map (\<lambda>m. DeleteObjects (nthBatch ks m)) [j..<Suc m]"
proof (induction "batchCount (length ks) - j" arbitrary: j w)
  case 0
  then have "\<not> j * batchSize < length ks" by (simp add: batchCount_less)
  with 0 show ?case by (simp add: deleteBatches_unfold_stop)
next
  case (Suc d)
  then have lt: "j < batchCount (length ks)" by simp
  then have il: "j * batchSize < length ks" by (simp add: batchCount_less)
  show ?case
  proof (cases "F (DeleteObjects (nthBatch ks j))")
    case True
    with Suc.prems il have "w' = io (DeleteObjects (nthBatch ks j)) w"
      by (simp add: deleteBatches_unfold_fail)
    with True lt show ?thesis
      by (intro exI[of _ j]) (simp add: io_def)
  next
    case False
    let ?w1 = "(io (DeleteObjects (nthBatch ks j)) w)\<lparr>bucket := fst (deleteObjects (undeletable w) (nthBatch ks j) (bucket w))\<rparr>"
    have rec: "deleteBatches F ks (Suc j * batchSize) ?w1 = (w', Inl e)"
      using Suc.prems deleteBatches_unfold_step[of j ks F w, OF il False] by simp
    have d: "d = batchCount (length ks) - Suc j" using Suc.hyps(2) by simp
    from Suc.hyps(1)[OF d rec]
    obtain m where m: "Suc j \<le> m" "m < batchCount (length ks)" "F (DeleteObjects (nthBatch ks m))"
      "calls w' = calls ?w1 @ map (\<lambda>m. DeleteObjects (nthBatch ks m)) [Suc j..<Suc m]"
      by blast
    have "[j..<Suc m] = j # [Suc j..<Suc m]" using m(1) by (simp add: upt_conv_Cons)
    then have "calls w' = calls w @ map (\<lambda>m. DeleteObjects (nthBatch ks m)) [j..<Suc m]"
      using m(4) by (simp add: io_def)
    with m(1,2,3) show ?thesis
      by (intro exI[of _ m]) simp
  qed
qed

lemma deleteBatches_no_failure:
  "(\<forall>m < batchCount (length ks). \<not> F (DeleteObjects (nthBatch ks m))) \<Longrightarrow>
     snd (deleteBatches F ks (j * batchSize) w) = Inr ()"
proof (induction "batchCount (length ks) - j" arbitrary: j w)
  case 0
  then have "\<not> j * batchSize < length ks" by (simp add: batchCount_less)
  then show ?case by (simp add: deleteBatches_unfold_stop)
next
  case (Suc d)
  then have lt: "j < batchCount (length ks)" by simp
  then have il: "j * batchSize < length ks" by (simp add: batchCount_less)
  have nf: "\<not> F (DeleteObjects (nthBatch ks j))" using Suc.prems lt by simp
  have d: "d = batchCount (length ks) - Suc j" using Suc.hyps(2) by simp
  show ?case
    using deleteBatches_unfold_step[of j ks F w, OF il nf] Suc.hyps(1)[OF d Suc.prems]
    by simp
qed

lemma map_length_batches_2500:
  assumes "length ks = 2500"
  shows "map (\<lambda>m. length (nthBatch ks m)) [0..<batchCount (length ks)] = [1000, 1000, 500]"
proof -
  have "batchCount (length ks) = 3" using assms by (simp add: batchCount_def)
  moreover have "[0..<3] = [0, 1, 2]" by (simp add: upt_rec)
  ultimately show ?thesis using assms by (simp add: nthBatch_def slice_def batchSize_def)
qed

text \<open>
  Claim C4. For every list of orphaned keys, of any length \<open>n\<close>: the batches are the
  consecutive slices of the list in order, together they are the list, and each holds at
  most 1000 keys; the delete requests sent are an initial run of these batches, so no
  request ever carries more than 1000 keys; when the deleter returns normally it has sent
  all \<open>\<lceil>n / 1000\<rceil>\<close> of them, one request per batch, in order; it returns normally when
  no request fails; and for \<open>n = 2500\<close> the batches have 1000, 1000 and 500 keys.
\<close>

theorem delete_batches_partition:
  assumes run: "deleteOrphanedR2Files F ks w = (w', r)"
  shows "(\<forall>m < batchCount (length ks). length (nthBatch ks m) \<le> 1000) \<and>
         concat (map (nthBatch ks) [0..<batchCount (length ks)]) = ks \<and>
         (\<exists>n \<le> batchCount (length ks).
            new_calls w w' = map (\<lambda>m. DeleteObjects (nthBatch ks m)) [0..<n]) \<and>
         (r = Inr () \<longrightarrow>
            new_calls w w' = map (\<lambda>m. DeleteObjects (nthBatch ks m)) [0..<batchCount (length ks)]) \<and>
         ((\<forall>m < batchCount (length ks). \<not> F (DeleteObjects (nthBatch ks m))) \<longrightarrow> r = Inr ()) \<and>
         (length ks = 2500 \<longrightarrow>
            map (\<lambda>m. length (nthBatch ks m)) [0..<batchCount (length ks)] = [1000, 1000, 500])"
proof (cases "ks = []")
  case True
  then have "w' = w" "r = Inr ()" using run by (simp_all add: deleteOrphanedR2Files_def)
  with True show ?thesis by (simp add: new_calls_def batchCount_def)
next
  case False
  then have loop: "deleteBatches F ks (0 * batchSize) w = (w', r)"
    using run by (simp add: deleteOrphanedR2Files_def)
  have bound: "\<forall>m < batchCount (length ks). length (nthBatch ks m) \<le> 1000"
    by (simp add: length_nthBatch)
  have part: "concat (map (nthBatch ks) [0..<batchCount (length ks)]) = ks"
    using concat_batches_from[of ks 0] by simp
  have ok: "new_calls w w' = map (\<lambda>m. DeleteObjects (nthBatch ks m)) [0..<batchCount (length ks)]"
    if "r = Inr ()"
    using deleteBatches_success[of F ks 0 w w' "()"] loop that by (simp add: new_calls_def)
  have pre: "\<exists>n \<le> batchCount (length ks).
               new_calls w w' = map (\<lambda>m. DeleteObjects (nthBatch ks m)) [0..<n]"
  proof (cases r)
    case (Inr u)
    then show ?thesis using ok by (intro exI[of _ "batchCount (length ks)"]) simp
  next
    case (Inl e)
    with loop deleteBatches_failure[of F ks 0 w w' e]
    obtain m where "m < batchCount (length ks)"
      "calls w' = calls w @ map (\<lambda>m. DeleteObjects (nthBatch ks m)) [0..<Suc m]"
      by auto
    then show ?thesis by (intro exI[of _ "Suc m"]) (simp add: new_calls_def)
  qed
  have tot: "r = Inr ()" if "\<forall>m < batchCount (length ks). \<not> F (DeleteObjects (nthBatch ks m))"
    using deleteBatches_no_failure[OF that, of 0 w] loop by simp
  show ?thesis
    using bound part ok pre tot map_length_batches_2500[of ks] by blast
qed

theorem delete_batches_partition_witness:
  "length keys2500 = 2500 \<and>
   snd (deleteOrphanedR2Files no_failure keys2500 world_C) = Inr () \<and>
   new_calls world_C (fst (deleteOrphanedR2Files no_failure keys2500 world_C))
     = map (\<lambda>m. DeleteObjects (nthBatch keys2500 m)) [0..<3] \<and>
   map (\<lambda>m. length (nthBatch keys2500 m)) [0..<3] = [1000, 1000, 500] \<and>
   concat (map (nthBatch keys2500) [0..<3]) = keys2500"
proof -
  have len: "length keys2500 = 2500" by (simp add: keys2500_def)
  then have cnt: "batchCount (length keys2500) = 3" by (simp add: batchCount_def)
  have ok: "\<forall>m < batchCount (length keys2500). \<not> no_failure (DeleteObjects (nthBatch keys2500 m))"
    by (simp add: no_failure_def)
  show ?thesis
    using len cnt ok
      delete_batches_partition[where F = no_failure and ks = keys2500 and w = world_C, OF surjective_pairing]
    by simp
qed

section \<open>A failed delete batch\<close>

lemma run_success:
  assumes "\<not> isCleanupRunning w"
    and "getMediaKeysFromDatabase F (w\<lparr>isCleanupRunning := True\<rparr>) = (w1, Inr dbMediaKeys)"
    and "getMediaKeysFromR2 F w1 = (w2, Inr r2MediaKeys)"
    and "deleteOrphanedR2Files F (filter (\<lambda>k. k \<notin> set dbMediaKeys) r2MediaKeys) w2 = (w3, Inr u)"
    and "cleanupDanglingDatabaseReferences F (filter (\<lambda>k. k \<notin> set r2MediaKeys) dbMediaKeys) w3 = (w4, Inr u')"
  shows "cleanupMediaFiles F w =
           (w4\<lparr>isCleanupRunning := False\<rparr>,
            \<lparr>orphanedR2Files = length (filter (\<lambda>k. k \<notin> set dbMediaKeys) r2MediaKeys),
             danglingSavedReferences = length (filter (\<lambda>k. k \<notin> set r2MediaKeys) dbMediaKeys)\<rparr>)"
  using assms by (simp add: cleanupMediaFiles_def cleanupMediaFilesTry_def)

lemma run_delete_fails:
  assumes "\<not> isCleanupRunning w"
    and "getMediaKeysFromDatabase F (w\<lparr>isCleanupRunning := True\<rparr>) = (w1, Inr dbMediaKeys)"
    and "getMediaKeysFromR2 F w1 = (w2, Inr r2MediaKeys)"
    and "deleteOrphanedR2Files F (filter (\<lambda>k. k \<notin> set dbMediaKeys) r2MediaKeys) w2 = (w3, Inl e)"
  shows "cleanupMediaFiles F w = (w3\<lparr>isCleanupRunning := False\<rparr>, zero_counts)"
  using assms by (simp add: cleanupMediaFiles_def cleanupMediaFilesTry_def)

lemma run_cleanup_fails:
  assumes "\<not> isCleanupRunning w"
    and "getMediaKeysFromDatabase F (w\<lparr>isCleanupRunning := True\<rparr>) = (w1, Inr dbMediaKeys)"
    and "getMediaKeysFromR2 F w1 = (w2, Inr r2MediaKeys)"
    and "deleteOrphanedR2Files F (filter (\<lambda>k. k \<notin> set dbMediaKeys) r2MediaKeys) w2 = (w3, Inr u)"
    and "cleanupDanglingDatabaseReferences F (filter (\<lambda>k. k \<notin> set r2MediaKeys) dbMediaKeys) w3 = (w4, Inl e)"
  shows "cleanupMediaFiles F w = (w4\<lparr>isCleanupRunning := False\<rparr>, zero_counts)"
  using assms by (simp add: cleanupMediaFiles_def cleanupMediaFilesTry_def)

lemma new_calls_append:
  "calls w1 = calls w @ cs \<Longrightarrow> calls w2 = calls w1 @ ds \<Longrightarrow> new_calls w w2 = cs @ ds"
  by (simp add: new_calls_def)

lemma extends_calls:
  "extends P w w' \<Longrightarrow> (\<And>c. P c \<Longrightarrow> \<not> is_mutation c) \<Longrightarrow>
     \<exists>cs. calls w' = calls w @ cs \<and> filter is_mutation cs = []"
  by (auto simp: extends_def filter_empty_conv)

lemma snapshots_calls:
  assumes "getMediaKeysFromDatabase F w0 = (w1, r1)" and "getMediaKeysFromR2 F w1 = (w2, r2)"
  shows "same_stores w0 w2 \<and> undeletable w2 = undeletable w0 \<and> connected w2 = connected w0 \<and>
         (\<exists>cs. calls w2 = calls w0 @ cs \<and> filter is_mutation cs = [])"
proof -
  from db_frame[OF assms(1)] have s1: "same_stores w0 w1"
    and e1: "extends (\<lambda>c. c = FindProducts \<or> c = FindCategories) w0 w1" by simp_all
  from r2_frame[OF assms(2)] have s2: "same_stores w1 w2"
    and e2: "extends (\<lambda>c. \<exists>p t. c = ListObjects p t \<and> managed_prefix p) w1 w2" by simp_all
  have u: "undeletable w2 = undeletable w0" "connected w2 = connected w0"
    using e1 e2 by (simp_all add: extends_def)
  have "\<exists>cs. calls w1 = calls w0 @ cs \<and> filter is_mutation cs = []"
    by (rule extends_calls[OF e1]) auto
  then obtain cs1 where c1: "calls w1 = calls w0 @ cs1" "filter is_mutation cs1 = []"
    by blast
  have "\<exists>cs. calls w2 = calls w1 @ cs \<and> filter is_mutation cs = []"
    by (rule extends_calls[OF e2]) auto
  then obtain cs2 where c2: "calls w2 = calls w1 @ cs2" "filter is_mutation cs2 = []"
    by blast
  have "calls w2 = calls w0 @ (cs1 @ cs2) \<and> filter is_mutation (cs1 @ cs2) = []"
    using c1 c2 by simp
  then show ?thesis using s1 s2 u by (blast intro: same_stores_trans)
qed

text \<open>
  The deleter on a list whose batch \<open>m\<close> is the first one, from batch \<open>j\<close> on, whose request
  fails: it throws, the requests it has sent are the batches \<open>j\<close> to \<open>m\<close>, and the bucket has
  lost the keys of the batches before \<open>m\<close> that the store did not refuse.
\<close>

lemma deleteBatches_first_failure:
  assumes "j \<le> m" and "m < batchCount (length ks)" and "F (DeleteObjects (nthBatch ks m))"
    and "\<forall>i. j \<le> i \<and> i < m \<longrightarrow> \<not> F (DeleteObjects (nthBatch ks i))"
  shows "snd (deleteBatches F ks (j * batchSize) w) = Inl R2Error \<and>
         calls (fst (deleteBatches F ks (j * batchSize) w))
           = calls w @ map (\<lambda>i. DeleteObjects (nthBatch ks i)) [j..<Suc m] \<and>
         bucket (fst (deleteBatches F ks (j * batchSize) w))
           = fst (deleteObjects (undeletable w) (concat (map (nthBatch ks) [j..<m])) (bucket w))"
  using assms
proof (induction "m - j" arbitrary: j w)
  case 0
  then have jm: "j = m" by simp
  have il: "m * batchSize < length ks" using "0.prems"(2) by (simp add: batchCount_less)
  show ?case
    unfolding jm using deleteBatches_unfold_fail[of m ks F w, OF il "0.prems"(3)]
    by (simp add: io_def deleteObjects_def)
next
  case (Suc d)
  then have lt: "j < m" by simp
  then have "j < batchCount (length ks)" using Suc.prems(2) by simp
  then have il: "j * batchSize < length ks" by (simp add: batchCount_less)
  have nf: "\<not> F (DeleteObjects (nthBatch ks j))" using Suc.prems(4) lt by simp
  let ?w1 = "(io (DeleteObjects (nthBatch ks j)) w)
               \<lparr>bucket := fst (deleteObjects (undeletable w) (nthBatch ks j) (bucket w))\<rparr>"
  have step: "deleteBatches F ks (j * batchSize) w = deleteBatches F ks (Suc j * batchSize) ?w1"
    by (rule deleteBatches_unfold_step[of j ks F w, OF il nf])
  have d: "d = m - Suc j" using Suc.hyps(2) by simp
  have le: "Suc j \<le> m" using lt by simp
  have rest: "\<forall>i. Suc j \<le> i \<and> i < m \<longrightarrow> \<not> F (DeleteObjects (nthBatch ks i))"
    using Suc.prems(4) by simp
  note ih = Suc.hyps(1)[OF d le Suc.prems(2,3) rest, of ?w1]
  have up1: "[j..<Suc m] = j # [Suc j..<Suc m]" using lt by (simp add: upt_conv_Cons)
  have up2: "[j..<m] = j # [Suc j..<m]" using lt by (simp add: upt_conv_Cons)
  have c: "calls ?w1 @ map (\<lambda>i. DeleteObjects (nthBatch ks i)) [Suc j..<Suc m]
             = calls w @ map (\<lambda>i. DeleteObjects (nthBatch ks i)) [j..<Suc m]"
    unfolding up1 by (simp add: io_def)
  have b: "fst (deleteObjects (undeletable ?w1) (concat (map (nthBatch ks) [Suc j..<m])) (bucket ?w1))
             = fst (deleteObjects (undeletable w) (concat (map (nthBatch ks) [j..<m])) (bucket w))"
    unfolding up2 by (auto simp: io_def deleteObjects_def intro: filter_cong)
  show ?case unfolding step using ih c b by simp
qed

lemma deleteBatches_success_no_failure:
  "deleteBatches F ks (j * batchSize) w = (w', Inr u) \<Longrightarrow>
     \<forall>m. j \<le> m \<and> m < batchCount (length ks) \<longrightarrow> \<not> F (DeleteObjects (nthBatch ks m))"
proof (rule ccontr)
  assume run: "deleteBatches F ks (j * batchSize) w = (w', Inr u)"
  assume "\<not> (\<forall>m. j \<le> m \<and> m < batchCount (length ks) \<longrightarrow> \<not> F (DeleteObjects (nthBatch ks m)))"
  then have ex: "\<exists>m. j \<le> m \<and> m < batchCount (length ks) \<and> F (DeleteObjects (nthBatch ks m))"
    by blast
  define m where "m = (LEAST m. j \<le> m \<and> m < batchCount (length ks) \<and> F (DeleteObjects (nthBatch ks m)))"
  have m: "j \<le> m \<and> m < batchCount (length ks) \<and> F (DeleteObjects (nthBatch ks m))"
    unfolding m_def using ex by (rule LeastI_ex)
  have first: "\<forall>i. j \<le> i \<and> i < m \<longrightarrow> \<not> F (DeleteObjects (nthBatch ks i))"
  proof (intro allI impI)
    fix i assume i: "j \<le> i \<and> i < m"
    show "\<not> F (DeleteObjects (nthBatch ks i))"
    proof
      assume "F (DeleteObjects (nthBatch ks i))"
      with i m have "j \<le> i \<and> i < batchCount (length ks) \<and> F (DeleteObjects (nthBatch ks i))" by simp
      then have "m \<le> i" unfolding m_def by (rule Least_le)
      with i show False by simp
    qed
  qed
  from deleteBatches_first_failure[of j m ks F w] m first run show False by simp
qed

text \<open>
  Claim C5 says that a failed delete batch is skipped, that the remaining batches are still
  sent, and that the keys of the failed batch are counted. On the code the claim fails:
  with one orphaned key whose delete request throws, the run returns zero counts.
\<close>

theorem failed_batch_counterexample:
  "snd (cleanupMediaFiles delete_fails world_A) = zero_counts \<and>
   filter is_mutation (new_calls world_A (fst (cleanupMediaFiles delete_fails world_A)))
     = [DeleteObjects [K2]]"
  by code_simp

text \<open>
  Claim C5, as the code has it. In a run whose two snapshots were obtained, let batch \<open>m\<close>
  of the orphaned keys be the first one whose delete request fails. Then the error leaves
  the deleter and the run returns zero counts; the requests of the run that change a store
  are the batches \<open>0\<close> to \<open>m\<close>, each sent once and in order (no later batch is sent, the
  failed batch is not sent again, no document update is sent); the documents are what they
  were; and the bucket has lost only keys of the batches before \<open>m\<close>.
\<close>

theorem failed_batch_aborts_run:
  assumes idle: "\<not> isCleanupRunning w"
    and db: "getMediaKeysFromDatabase F (w\<lparr>isCleanupRunning := True\<rparr>) = (w1, Inr dbMediaKeys)"
    and r2: "getMediaKeysFromR2 F w1 = (w2, Inr r2MediaKeys)"
    and orph: "orphanedKeys = filter (\<lambda>k. k \<notin> set dbMediaKeys) r2MediaKeys"
    and m: "m < batchCount (length orphanedKeys)"
    and fails: "F (DeleteObjects (nthBatch orphanedKeys m))"
    and first: "\<forall>j < m. \<not> F (DeleteObjects (nthBatch orphanedKeys j))"
  shows "snd (cleanupMediaFiles F w) = zero_counts \<and>
         filter is_mutation (new_calls w (fst (cleanupMediaFiles F w)))
           = map (\<lambda>j. DeleteObjects (nthBatch orphanedKeys j)) [0..<Suc m] \<and>
         products (fst (cleanupMediaFiles F w)) = products w \<and>
         categories (fst (cleanupMediaFiles F w)) = categories w \<and>
         bucket (fst (cleanupMediaFiles F w))
           = fst (deleteObjects (undeletable w) (concat (map (nthBatch orphanedKeys) [0..<m])) (bucket w))"
proof -
  let ?w0 = "w\<lparr>isCleanupRunning := True\<rparr>"
  let ?run = "deleteBatches F orphanedKeys (0 * batchSize) w2"
  from snapshots_calls[OF db r2] obtain cs where
    s12: "same_stores ?w0 w2" and u12: "undeletable w2 = undeletable w"
    and c12: "calls w2 = calls w @ cs" "filter is_mutation cs = []"
    by auto
  have ne: "orphanedKeys \<noteq> []" using m by (auto simp: batchCount_def)
  have first': "\<forall>i. 0 \<le> i \<and> i < m \<longrightarrow> \<not> F (DeleteObjects (nthBatch orphanedKeys i))"
    using first by simp
  note ff = deleteBatches_first_failure[of 0 m orphanedKeys F w2, OF _ m fails first']
  have del: "deleteOrphanedR2Files F (filter (\<lambda>k. k \<notin> set dbMediaKeys) r2MediaKeys) w2
               = (fst ?run, Inl R2Error)"
    using ne ff orph by (simp add: deleteOrphanedR2Files_def prod_eq_iff)
  have res: "cleanupMediaFiles F w = ((fst ?run)\<lparr>isCleanupRunning := False\<rparr>, zero_counts)"
    by (rule run_delete_fails[OF idle db r2 del])
  have "new_calls w (fst ?run) = cs @ map (\<lambda>j. DeleteObjects (nthBatch orphanedKeys j)) [0..<Suc m]"
    using c12(1) ff by (simp add: new_calls_def)
  moreover have "filter is_mutation (map (\<lambda>j. DeleteObjects (nthBatch orphanedKeys j)) [0..<Suc m])
                   = map (\<lambda>j. DeleteObjects (nthBatch orphanedKeys j)) [0..<Suc m]"
    by (simp add: filter_map o_def del: upt_Suc)
  ultimately have tr: "filter is_mutation (new_calls w (fst ?run))
                         = map (\<lambda>j. DeleteObjects (nthBatch orphanedKeys j)) [0..<Suc m]"
    using c12(2) by (simp del: upt_Suc)
  have st: "products (fst ?run) = products w \<and> categories (fst ?run) = categories w"
    using s12 delete_frame[OF del] by (simp add: same_stores_def)
  have bk: "bucket (fst ?run)
              = fst (deleteObjects (undeletable w) (concat (map (nthBatch orphanedKeys) [0..<m])) (bucket w))"
    using ff s12 u12 by (simp add: same_stores_def)
  show ?thesis
    unfolding res using tr st bk by (simp add: new_calls_def del: upt_Suc)
qed

theorem failed_batch_aborts_run_witness:
  "\<not> isCleanupRunning world_A \<and>
   snd (getMediaKeysFromDatabase delete_fails (world_A\<lparr>isCleanupRunning := True\<rparr>)) = Inr [K1] \<and>
   snd (getMediaKeysFromR2 delete_fails
          (fst (getMediaKeysFromDatabase delete_fails (world_A\<lparr>isCleanupRunning := True\<rparr>))))
     = Inr [K1, K2] \<and>
   filter (\<lambda>k. k \<notin> set [K1]) [K1, K2] = [K2] \<and>
   0 < batchCount (length [K2]) \<and>
   delete_fails (DeleteObjects (nthBatch [K2] 0)) \<and>
   snd (cleanupMediaFiles delete_fails world_A) = zero_counts \<and>
   filter is_mutation (new_calls world_A (fst (cleanupMediaFiles delete_fails world_A)))
     = [DeleteObjects (nthBatch [K2] 0)] \<and>
   products (fst (cleanupMediaFiles delete_fails world_A)) = products world_A \<and>
   bucket (fst (cleanupMediaFiles delete_fails world_A)) = bucket world_A"
proof -
  let ?w0 = "world_A\<lparr>isCleanupRunning := True\<rparr>"
  let ?w1 = "fst (getMediaKeysFromDatabase delete_fails ?w0)"
  let ?w2 = "fst (getMediaKeysFromR2 delete_fails ?w1)"
  have h0: "\<not> isCleanupRunning world_A" by (simp add: world_A_def)
  have a: "snd (getMediaKeysFromDatabase delete_fails ?w0) = Inr [K1]" by code_simp
  have b: "snd (getMediaKeysFromR2 delete_fails ?w1) = Inr [K1, K2]" by code_simp
  have o: "[K2] = filter (\<lambda>k. k \<notin> set [K1]) [K1, K2]" by code_simp
  have m: "0 < batchCount (length [K2])" by (simp add: batchCount_def)
  have f: "delete_fails (DeleteObjects (nthBatch [K2] 0))" by simp
  have n: "\<forall>j < (0::nat). \<not> delete_fails (DeleteObjects (nthBatch [K2] j))" by simp
  have h1: "getMediaKeysFromDatabase delete_fails ?w0 = (?w1, Inr [K1])"
    using a by (simp add: prod_eq_iff)
  have h2: "getMediaKeysFromR2 delete_fails ?w1 = (?w2, Inr [K1, K2])"
    using b by (simp add: prod_eq_iff)
  have e: "fst (deleteObjects (undeletable world_A) [] (bucket world_A)) = bucket world_A"
    by (simp add: deleteObjects_def)
  show ?thesis
    using h0 a b o[symmetric] m f failed_batch_aborts_run[OF h0 h1 h2 o m f n]
    by (simp add: e)
qed

text \<open>
  The deleter on 2500 keys when the request of the second batch fails: two requests, of
  1000 keys each, and the third batch is never sent.
\<close>

lemma second_batch_fails_instance:
  "snd (deleteOrphanedR2Files (\<lambda>c. c = DeleteObjects (nthBatch keys2500 1)) keys2500 world_C)
     = Inl R2Error \<and>
   new_calls world_C
     (fst (deleteOrphanedR2Files (\<lambda>c. c = DeleteObjects (nthBatch keys2500 1)) keys2500 world_C))
     = [DeleteObjects (nthBatch keys2500 0), DeleteObjects (nthBatch keys2500 1)]"
proof -
  let ?F = "\<lambda>c. c = DeleteObjects (nthBatch keys2500 1)"
  have len: "length keys2500 = 2500" by (simp add: keys2500_def)
  then have cnt: "1 < batchCount (length keys2500)" by (simp add: batchCount_def)
  have d: "dec 0 \<noteq> dec 1000" by code_simp
  have "nthBatch keys2500 0 ! 0 = keys2500 ! 0" "nthBatch keys2500 1 ! 0 = keys2500 ! 1000"
    using len by (simp_all add: nthBatch_def slice_def batchSize_def)
  moreover have "keys2500 ! 0 \<noteq> keys2500 ! 1000"
    using d by (simp add: keys2500_def del: dec.simps)
  ultimately have ne: "nthBatch keys2500 0 \<noteq> nthBatch keys2500 1" by metis
  have first: "\<forall>i. 0 \<le> i \<and> i < 1 \<longrightarrow> \<not> ?F (DeleteObjects (nthBatch keys2500 i))"
    using ne by simp
  have nonempty: "length keys2500 \<noteq> 0" using len by simp
  have up: "[0..<Suc 1] = [0, 1]" by (simp add: upt_rec)
  show ?thesis
    using deleteBatches_first_failure[of 0 1 keys2500 ?F world_C, OF _ cnt _ first] nonempty
    by (simp add: deleteOrphanedR2Files_def new_calls_def up)
qed

section \<open>Grouped reference cleanup\<close>

lemma runUpdate_eq:
  "runUpdate F c eff st =
     (if F c then (io c (fst st), case snd st of Inl e \<Rightarrow> Inl e | Inr u \<Rightarrow> Inl DbOperationError)
      else (eff (io c (fst st)), snd st))"
  by (simp add: runUpdate_def Let_def)

lemma cleanup_groups_effect:
  assumes con: "connected w" and ne: "ks \<noteq> []"
    and run: "cleanupDanglingDatabaseReferences F ks w = (w', r)"
  shows "new_calls w w' =
           (if productImageKeys ks \<noteq> [] then [PullProductImages (productImageKeys ks)] else []) @
           (if productThumbnailKeys ks \<noteq> [] then [NullProductThumbnails (productThumbnailKeys ks)] else []) @
           (if categoryThumbnailKeys ks \<noteq> [] then [NullCategoryThumbnails (categoryThumbnailKeys ks)] else [])"
    and "products w' =
           map ((if productThumbnailKeys ks \<noteq> [] \<and> \<not> F (NullProductThumbnails (productThumbnailKeys ks))
                 then nullProductThumbnail (productThumbnailKeys ks) else id) \<circ>
                (if productImageKeys ks \<noteq> [] \<and> \<not> F (PullProductImages (productImageKeys ks))
                 then pullImages (productImageKeys ks) else id)) (products w)"
    and "categories w' =
           map (if categoryThumbnailKeys ks \<noteq> [] \<and> \<not> F (NullCategoryThumbnails (categoryThumbnailKeys ks))
                then nullCategoryThumbnail (categoryThumbnailKeys ks) else id) (categories w)"
    and "r = (if (productImageKeys ks \<noteq> [] \<and> F (PullProductImages (productImageKeys ks))) \<or>
                 (productThumbnailKeys ks \<noteq> [] \<and> F (NullProductThumbnails (productThumbnailKeys ks))) \<or>
                 (categoryThumbnailKeys ks \<noteq> [] \<and> F (NullCategoryThumbnails (categoryThumbnailKeys ks)))
              then Inl DbOperationError else Inr ())"
proof -
  let ?a = "productImageKeys ks" and ?b = "productThumbnailKeys ks" and ?c = "categoryThumbnailKeys ks"
  have eq: "(w', r) = cleanupDanglingDatabaseReferences F ks w" using run by simp
  have w': "w' = fst (cleanupDanglingDatabaseReferences F ks w)"
    and r: "r = snd (cleanupDanglingDatabaseReferences F ks w)" using run by simp_all
  note defs = cleanupDanglingDatabaseReferences_def executeDbOperation_def runUpdate_eq
    productImageKeys_def[symmetric] productThumbnailKeys_def[symmetric] categoryThumbnailKeys_def[symmetric]
    new_calls_def io_def Let_def
  show "new_calls w w' =
           (if ?a \<noteq> [] then [PullProductImages ?a] else []) @
           (if ?b \<noteq> [] then [NullProductThumbnails ?b] else []) @
           (if ?c \<noteq> [] then [NullCategoryThumbnails ?c] else [])"
    unfolding w' using con ne by (simp add: defs)
  show "products w' =
           map ((if ?b \<noteq> [] \<and> \<not> F (NullProductThumbnails ?b) then nullProductThumbnail ?b else id) \<circ>
                (if ?a \<noteq> [] \<and> \<not> F (PullProductImages ?a) then pullImages ?a else id)) (products w)"
    unfolding w' using con ne by (simp add: defs)
  show "categories w' =
           map (if ?c \<noteq> [] \<and> \<not> F (NullCategoryThumbnails ?c) then nullCategoryThumbnail ?c else id)
             (categories w)"
    unfolding w' using con ne by (simp add: defs)
  show "r = (if (?a \<noteq> [] \<and> F (PullProductImages ?a)) \<or> (?b \<noteq> [] \<and> F (NullProductThumbnails ?b)) \<or>
                 (?c \<noteq> [] \<and> F (NullCategoryThumbnails ?c))
              then Inl DbOperationError else Inr ())"
    unfolding r using con ne by (simp add: defs)
qed

lemma db_success_connected:
  "getMediaKeysFromDatabase F w = (w', Inr ks) \<Longrightarrow> connected w"
  by (auto simp: getMediaKeysFromDatabase_def executeDbOperation_def split: if_splits)

text \<open>
  Claim C8 says that an error in one group of updates is caught per field-group. On the
  code the claim fails: with a dangling gallery key and a dangling category thumbnail,
  and the pull from the gallery arrays failing, the error leaves the reference cleanup
  and the run returns zero counts, while the category thumbnail has been set to null.
\<close>

theorem group_failure_counterexample:
  "snd (cleanupDanglingDatabaseReferences pull_fails [K3, K5] world_D) = Inl DbOperationError \<and>
   snd (cleanupMediaFiles pull_fails world_D) = zero_counts \<and>
   categories (fst (cleanupMediaFiles pull_fails world_D)) = [\<lparr>cat_thumbnail = None\<rparr>] \<and>
   products (fst (cleanupMediaFiles pull_fails world_D)) = [\<lparr>images = [K3], thumbnail = None\<rparr>]"
  by code_simp

text \<open>
  Claim C8, as the code has it. In a run that reaches the reference cleanup with a
  non-empty list of dangling keys: one update is sent for every non-empty group, whatever
  fails; every group whose update does not fail is applied to the documents, so a failure
  in one group neither stops nor undoes the others; the cleanup throws when some group
  fails, and the run then returns zero counts, otherwise the two counts.
\<close>

theorem reference_cleanup_groups:
  assumes idle: "\<not> isCleanupRunning w"
    and db: "getMediaKeysFromDatabase F (w\<lparr>isCleanupRunning := True\<rparr>) = (w1, Inr dbMediaKeys)"
    and r2: "getMediaKeysFromR2 F w1 = (w2, Inr r2MediaKeys)"
    and del: "deleteOrphanedR2Files F (filter (\<lambda>k. k \<notin> set dbMediaKeys) r2MediaKeys) w2 = (w3, Inr u)"
    and D: "D = filter (\<lambda>k. k \<notin> set r2MediaKeys) dbMediaKeys" "D \<noteq> []"
    and dang: "cleanupDanglingDatabaseReferences F D w3 = (w4, r)"
  shows "new_calls w3 w4 =
           (if productImageKeys D \<noteq> [] then [PullProductImages (productImageKeys D)] else []) @
           (if productThumbnailKeys D \<noteq> [] then [NullProductThumbnails (productThumbnailKeys D)] else []) @
           (if categoryThumbnailKeys D \<noteq> [] then [NullCategoryThumbnails (categoryThumbnailKeys D)] else []) \<and>
         products w4 =
           map ((if productThumbnailKeys D \<noteq> [] \<and> \<not> F (NullProductThumbnails (productThumbnailKeys D))
                 then nullProductThumbnail (productThumbnailKeys D) else id) \<circ>
                (if productImageKeys D \<noteq> [] \<and> \<not> F (PullProductImages (productImageKeys D))
                 then pullImages (productImageKeys D) else id)) (products w3) \<and>
         categories w4 =
           map (if categoryThumbnailKeys D \<noteq> [] \<and> \<not> F (NullCategoryThumbnails (categoryThumbnailKeys D))
                then nullCategoryThumbnail (categoryThumbnailKeys D) else id) (categories w3) \<and>
         r = (if (productImageKeys D \<noteq> [] \<and> F (PullProductImages (productImageKeys D))) \<or>
                 (productThumbnailKeys D \<noteq> [] \<and> F (NullProductThumbnails (productThumbnailKeys D))) \<or>
                 (categoryThumbnailKeys D \<noteq> [] \<and> F (NullCategoryThumbnails (categoryThumbnailKeys D)))
              then Inl DbOperationError else Inr ()) \<and>
         snd (cleanupMediaFiles F w) =
           (if r = Inr ()
            then \<lparr>orphanedR2Files = length (filter (\<lambda>k. k \<notin> set dbMediaKeys) r2MediaKeys),
                  danglingSavedReferences = length D\<rparr>
            else zero_counts)"
proof -
  have "connected (w\<lparr>isCleanupRunning := True\<rparr>)" using db by (rule db_success_connected)
  moreover have "connected w1 = connected (w\<lparr>isCleanupRunning := True\<rparr>)"
    using db_frame[OF db] by (simp add: extends_def)
  moreover have "connected w2 = connected w1"
    using r2_frame[OF r2] by (simp add: extends_def)
  moreover have "connected w3 = connected w2"
    using delete_frame[OF del] by simp
  ultimately have con: "connected w3" by simp
  note g = cleanup_groups_effect[OF con D(2) dang]
  have res: "snd (cleanupMediaFiles F w) =
           (if r = Inr ()
            then \<lparr>orphanedR2Files = length (filter (\<lambda>k. k \<notin> set dbMediaKeys) r2MediaKeys),
                  danglingSavedReferences = length D\<rparr>
            else zero_counts)"
  proof (cases r)
    case (Inl e)
    then show ?thesis
      using run_cleanup_fails[OF idle db r2 del, of w4 e] dang D(1) by simp
  next
    case (Inr u')
    then show ?thesis
      using run_success[OF idle db r2 del, of w4 u'] dang D(1) by simp
  qed
  show ?thesis using g res by blast
qed

theorem reference_cleanup_groups_witness:
  "\<not> isCleanupRunning world_D \<and>
   snd (getMediaKeysFromDatabase pull_fails (world_D\<lparr>isCleanupRunning := True\<rparr>)) = Inr [K3, K5] \<and>
   snd (getMediaKeysFromR2 pull_fails
          (fst (getMediaKeysFromDatabase pull_fails (world_D\<lparr>isCleanupRunning := True\<rparr>)))) = Inr [] \<and>
   snd (cleanupMediaFiles pull_fails world_D) = zero_counts \<and>
   categories (fst (cleanupDanglingDatabaseReferences pull_fails [K3, K5]
      (fst (getMediaKeysFromR2 pull_fails
          (fst (getMediaKeysFromDatabase pull_fails (world_D\<lparr>isCleanupRunning := True\<rparr>)))))))
     = map (nullCategoryThumbnail [K5]) (categories world_D)"
proof -
  let ?w0 = "world_D\<lparr>isCleanupRunning := True\<rparr>"
  let ?w1 = "fst (getMediaKeysFromDatabase pull_fails ?w0)"
  let ?w2 = "fst (getMediaKeysFromR2 pull_fails ?w1)"
  have h0: "\<not> isCleanupRunning world_D" by (simp add: world_D_def)
  have a: "snd (getMediaKeysFromDatabase pull_fails ?w0) = Inr [K3, K5]" by code_simp
  have b: "snd (getMediaKeysFromR2 pull_fails ?w1) = Inr []" by code_simp
  have c: "deleteOrphanedR2Files pull_fails (filter (\<lambda>k. k \<notin> set [K3, K5]) []) ?w2 = (?w2, Inr ())"
    by (simp add: deleteOrphanedR2Files_def)
  have d: "[K3, K5] = filter (\<lambda>k. k \<notin> set []) [K3, K5]" "[K3, K5] \<noteq> []" by simp_all
  have g: "productImageKeys [K3, K5] = [K3]" "productThumbnailKeys [K3, K5] = []"
    "categoryThumbnailKeys [K3, K5] = [K5]" by code_simp+
  have s: "categories ?w2 = categories world_D" by code_simp
  have h1: "getMediaKeysFromDatabase pull_fails ?w0 = (?w1, Inr [K3, K5])"
    using a by (simp add: prod_eq_iff)
  have h2: "getMediaKeysFromR2 pull_fails ?w1 = (?w2, Inr [])"
    using b by (simp add: prod_eq_iff)
  show ?thesis
    using h0 a b g s reference_cleanup_groups[OF h0 h1 h2 c d surjective_pairing]
    by simp
qed

section \<open>Retention of staged files\<close>

lemma map_of_filter_neq:
  "map_of (filter (\<lambda>e. fst e \<noteq> f) es) g = (if g = f then None else map_of es g)"
  by (induction es) auto

lemma processTempFile_dir:
  assumes "uploadDir t = Some es" and "distinct (map fst es)"
  shows "uploadDir (fst (processTempFile G now f (t, fd, ts))) =
           Some (filter (\<lambda>e. \<not> (fst e = f \<and> removable G now e)) es)"
proof (cases "map_of es f")
  case None
  then have "f \<notin> fst ` set es" by (simp add: map_of_eq_None_iff)
  then have "filter (\<lambda>e. \<not> (fst e = f \<and> removable G now e)) es = es"
    by (auto simp: filter_id_conv)
  with None assms show ?thesis
    by (simp add: processTempFile_def fio_def Let_def)
next
  case (Some st)
  then have mem: "(f, st) \<in> set es" by (rule map_of_SomeD)
  have uniq: "e = (f, st)" if "e \<in> set es" "fst e = f" for e
    using that assms(2) mem by (metis eq_key_imp_eq_value prod.collapse)
  show ?thesis
  proof (cases "removable G now (f, st)")
    case True
    have "filter (\<lambda>e. \<not> (fst e = f \<and> removable G now e)) es = filter (\<lambda>e. fst e \<noteq> f) es"
      using uniq True by (intro filter_cong) auto
    with True Some assms show ?thesis
      by (simp add: processTempFile_def fio_def unlink_def Let_def removable_def)
  next
    case False
    have "filter (\<lambda>e. \<not> (fst e = f \<and> removable G now e)) es = es"
      using uniq False by (auto simp: filter_id_conv)
    with False Some assms show ?thesis
      by (auto simp: processTempFile_def fio_def unlink_def Let_def removable_def)
  qed
qed

lemma processTempFiles_dir:
  assumes "uploadDir t = Some es" and "distinct (map fst es)"
  shows "uploadDir (fst (processTempFiles G now fs (t, fd, ts))) =
           Some (filter (\<lambda>e. \<not> (fst e \<in> set fs \<and> removable G now e)) es)"
  using assms
proof (induction fs arbitrary: t es fd ts)
  case Nil
  then show ?case by simp
next
  case (Cons f fs)
  obtain t1 fd1 ts1 where p: "processTempFile G now f (t, fd, ts) = (t1, fd1, ts1)"
    by (cases "processTempFile G now f (t, fd, ts)")
  let ?es1 = "filter (\<lambda>e. \<not> (fst e = f \<and> removable G now e)) es"
  have u1: "uploadDir t1 = Some ?es1"
    using processTempFile_dir[OF Cons.prems, of G now f fd ts] p by simp
  have d1: "distinct (map fst ?es1)"
    using Cons.prems(2) by (simp add: distinct_map_filter)
  have "uploadDir (fst (processTempFiles G now fs (t1, fd1, ts1))) =
          Some (filter (\<lambda>e. \<not> (fst e \<in> set fs \<and> removable G now e)) ?es1)"
    by (rule Cons.IH[OF u1 d1])
  moreover have "filter (\<lambda>e. \<not> (fst e \<in> set fs \<and> removable G now e)) ?es1
                   = filter (\<lambda>e. \<not> (fst e \<in> set (f # fs) \<and> removable G now e)) es"
    by (auto intro: filter_cong)
  ultimately show ?case using p by simp
qed

lemma cleanup_temp_dir:
  assumes "uploadDir t = Some es" and "distinct (map fst es)"
    and "\<not> isTempCleanupRunning t" and "\<not> G ReaddirSync"
  shows "dirEntries (fst (cleanupOldTempFiles G now t)) = filter (\<lambda>e. \<not> removable G now e) es"
proof (cases "es = []")
  case True
  with assms show ?thesis
    by (simp add: cleanupOldTempFiles_def cleanupOldTempFilesTry_def fio_def dirEntries_def Let_def)
next
  case False
  let ?t2 = "fio ReaddirSync (fio ExistsSync (t\<lparr>isTempCleanupRunning := True\<rparr>))"
  have u: "uploadDir ?t2 = Some es" using assms(1) by (simp add: fio_def)
  have "uploadDir (fst (processTempFiles G now (map fst es) (?t2, 0, 0))) =
          Some (filter (\<lambda>e. \<not> (fst e \<in> set (map fst es) \<and> removable G now e)) es)"
    by (rule processTempFiles_dir[OF u assms(2)])
  moreover have "filter (\<lambda>e. \<not> (fst e \<in> set (map fst es) \<and> removable G now e)) es
                   = filter (\<lambda>e. \<not> removable G now e) es"
    by (auto intro: filter_cong)
  ultimately have "uploadDir (fst (processTempFiles G now (map fst es) (?t2, 0, 0))) =
          Some (filter (\<lambda>e. \<not> removable G now e) es)" by simp
  with False assms show ?thesis
    by (auto simp: cleanupOldTempFiles_def cleanupOldTempFilesTry_def dirEntries_def Let_def
             fio_def split: prod.splits)
qed

lemma cleanup_temp_dir_skipped:
  assumes "uploadDir t = Some es" and "isTempCleanupRunning t \<or> G ReaddirSync"
  shows "dirEntries (fst (cleanupOldTempFiles G now t)) = es"
  using assms
  by (auto simp: cleanupOldTempFiles_def cleanupOldTempFilesTry_def fio_def dirEntries_def Let_def)

text \<open>
  Claim C9. For every entry of the staging directory (the names of a directory are
  distinct) and every cleanup call: an entry whose age is at most the threshold is still
  there afterwards; a directory entry is still there afterwards, whatever its age; and in
  a run (the flag was not set and the directory could be read) a regular file older than
  the threshold, whose \<^verbatim>\<open>statSync\<close> and \<^verbatim>\<open>unlinkSync\<close> do not throw, is gone.
\<close>

theorem temp_retention:
  assumes dir: "uploadDir t = Some es" and names: "distinct (map fst es)"
    and entry: "(name, st) \<in> set es"
  shows "(now - mtimeMs st \<le> TEMP_FILE_MAX_AGE \<longrightarrow>
            (name, st) \<in> set (dirEntries (fst (cleanupOldTempFiles G now t)))) \<and>
         (isDirectory st \<longrightarrow>
            (name, st) \<in> set (dirEntries (fst (cleanupOldTempFiles G now t)))) \<and>
         (\<not> isTempCleanupRunning t \<and> \<not> G ReaddirSync \<and>
          \<not> G (StatSync name) \<and> \<not> G (UnlinkSync name) \<and>
          isFile st \<and> \<not> isDirectory st \<and> now - mtimeMs st > TEMP_FILE_MAX_AGE \<longrightarrow>
            name \<notin> fst ` set (dirEntries (fst (cleanupOldTempFiles G now t))))"
proof (cases "isTempCleanupRunning t \<or> G ReaddirSync")
  case True
  then show ?thesis
    using cleanup_temp_dir_skipped[where t = t and es = es and G = G and now = now, OF dir True] entry
    by auto
next
  case False
  then have run: "dirEntries (fst (cleanupOldTempFiles G now t)) = filter (\<lambda>e. \<not> removable G now e) es"
    using cleanup_temp_dir[where t = t and es = es and G = G and now = now, OF dir names] by simp
  have uniq: "e = (name, st)" if "e \<in> set es" "fst e = name" for e
    using that names entry by (metis eq_key_imp_eq_value prod.collapse)
  have gone: "name \<notin> fst ` set (filter (\<lambda>e. \<not> removable G now e) es)"
    if "removable G now (name, st)"
    using that uniq by auto
  show ?thesis
    unfolding run using entry gone by (auto simp: removable_def)
qed

theorem temp_retention_witness:
  "(''new.png'', \<lparr>mtimeMs = 9000000, sizeBytes = 20, isDirectory = False, isFile = True\<rparr>)
     \<in> set (dirEntries (fst (cleanupOldTempFiles no_fs_failure 10000000 temp_A))) \<and>
   (''olddir'', \<lparr>mtimeMs = 1000, sizeBytes = 4096, isDirectory = True, isFile = False\<rparr>)
     \<in> set (dirEntries (fst (cleanupOldTempFiles no_fs_failure 10000000 temp_A))) \<and>
   ''old.png'' \<notin> fst ` set (dirEntries (fst (cleanupOldTempFiles no_fs_failure 10000000 temp_A)))"
proof -
  let ?old = "(''old.png'', \<lparr>mtimeMs = 1000, sizeBytes = 10, isDirectory = False, isFile = True\<rparr>)"
  let ?new = "(''new.png'', \<lparr>mtimeMs = 9000000, sizeBytes = 20, isDirectory = False, isFile = True\<rparr>)"
  let ?dir = "(''olddir'', \<lparr>mtimeMs = 1000, sizeBytes = 4096, isDirectory = True, isFile = False\<rparr>)"
  have dir: "uploadDir temp_A = Some [?old, ?new, ?dir]" by (simp add: temp_A_def)
  have names: "distinct (map fst [?old, ?new, ?dir])" by simp
  have e1: "?old \<in> set [?old, ?new, ?dir]" and e2: "?new \<in> set [?old, ?new, ?dir]"
    and e3: "?dir \<in> set [?old, ?new, ?dir]" by simp_all
  have pre: "\<not> isTempCleanupRunning temp_A" "\<not> no_fs_failure ReaddirSync" "\<not> no_fs_failure (StatSync ''old.png'')"
    "\<not> no_fs_failure (UnlinkSync ''old.png'')"
    by (simp_all add: temp_A_def no_fs_failure_def)
  show ?thesis
    using pre
      temp_retention[where now = 10000000 and G = no_fs_failure, OF dir names e1]
      temp_retention[where now = 10000000 and G = no_fs_failure, OF dir names e2]
      temp_retention[where now = 10000000 and G = no_fs_failure, OF dir names e3]
    by (simp add: TEMP_FILE_MAX_AGE_def)
qed

section \<open>Bytes freed\<close>

text \<open>
  Claim C10 says that the returned \<^verbatim>\<open>totalSize\<close> is the sum of the sizes of the files
  the run deleted. The size is added before the entry's type is looked at and before the
  unlink: with a 10-byte old file, a fresh file and an old directory of 4096 bytes, the
  run deletes the 10-byte file only and returns 4106.
\<close>

theorem total_size_counts_skipped_directory:
  "cleanupOldTempFiles no_fs_failure 10000000 temp_A =
     (\<lparr>uploadDir = Some
          [(''new.png'', \<lparr>mtimeMs = 9000000, sizeBytes = 20, isDirectory = False, isFile = True\<rparr>),
           (''olddir'', \<lparr>mtimeMs = 1000, sizeBytes = 4096, isDirectory = True, isFile = False\<rparr>)],
        fscalls = [ExistsSync, ReaddirSync, StatSync ''old.png'', UnlinkSync ''old.png'',
                   StatSync ''new.png'', StatSync ''olddir''],
        flagAtFsCall = [True, True, True, True, True, True],
        isTempCleanupRunning = False\<rparr>,
      \<lparr>filesDeleted = 1, totalSize = 4106\<rparr>)"
  by code_simp

section \<open>Managed prefixes\<close>

lemma set_set_add: "set (set_add s k) = insert k (set s)"
  by (auto simp: set_add_def)

lemma set_foldl_cond_add:
  "set (foldl (\<lambda>s k. if P k then set_add s k else s) s0 xs) = set s0 \<union> {k \<in> set xs. P k}"
  by (induction xs arbitrary: s0) (auto simp: set_set_add)

lemma addProductKeys_managed:
  "k \<in> set (addProductKeys mk p) \<Longrightarrow> k \<in> set mk \<or> managed k"
  by (auto simp: addProductKeys_def set_foldl_cond_add set_set_add managed_def Let_def
           split: option.splits if_splits)

lemma addCategoryKeys_managed:
  "k \<in> set (addCategoryKeys mk c) \<Longrightarrow> k \<in> set mk \<or> managed k"
  by (auto simp: addCategoryKeys_def set_set_add managed_def split: option.splits if_splits)

lemma foldl_addProductKeys_managed:
  "k \<in> set (foldl addProductKeys mk ps) \<Longrightarrow> k \<in> set mk \<or> managed k"
  by (induction ps arbitrary: mk) (auto dest: addProductKeys_managed)

lemma foldl_addCategoryKeys_managed:
  "k \<in> set (foldl addCategoryKeys mk cs) \<Longrightarrow> k \<in> set mk \<or> managed k"
  by (induction cs arbitrary: mk) (auto dest: addCategoryKeys_managed)

lemma db_keys_managed:
  assumes "getMediaKeysFromDatabase F w = (w', Inr ks)"
  shows "list_all managed ks"
proof -
  have "managed k" if "k \<in> set ks" for k
    using assms that
    by (auto simp: getMediaKeysFromDatabase_def executeDbOperation_def Let_def
             split: if_splits
             dest!: foldl_addCategoryKeys_managed foldl_addProductKeys_managed)
  then show ?thesis by (simp add: list_all_iff)
qed

lemma listObjectsV2_keys:
  "k \<in> set (fst (listObjectsV2 b pfx n tok)) \<Longrightarrow> k \<in> set b \<and> startsWith k pfx"
  by (auto simp: listObjectsV2_def Let_def dest!: in_set_takeD in_set_dropD)

lemma r2loop_keys:
  "getR2KeysLoop F pfx tok mk w = (w', Inr ks) \<Longrightarrow> k \<in> set ks \<Longrightarrow>
     k \<in> set mk \<or> (k \<in> set (bucket w) \<and> startsWith k pfx)"
proof (induction F pfx tok mk w arbitrary: w' rule: getR2KeysLoop.induct)
  case (1 F pfx tok mk w)
  let ?w1 = "io (ListObjects pfx tok) w"
  let ?resp = "listObjectsV2 (bucket ?w1) pfx 1000 tok"
  let ?mk = "foldl (\<lambda>s k. if k \<noteq> [] then set_add s k else s) mk (fst ?resp)"
  have nf: "\<not> F (ListObjects pfx tok)"
    using "1.prems"(1) by (subst (asm) getR2KeysLoop.simps) (auto split: if_splits)
  have page: "k \<in> set mk \<or> (k \<in> set (bucket w) \<and> startsWith k pfx)" if "k \<in> set ?mk"
    using that listObjectsV2_keys[of k "bucket ?w1" pfx 1000 tok]
    by (auto simp: set_foldl_cond_add io_def)
  show ?case
  proof (cases "snd ?resp")
    case None
    with nf "1.prems"(1) have "ks = ?mk"
      by (subst (asm) getR2KeysLoop.simps) (auto simp: Let_def)
    with page "1.prems"(2) show ?thesis by simp
  next
    case (Some t)
    with nf "1.prems"(1) have rec: "getR2KeysLoop F pfx (Some t) ?mk ?w1 = (w', Inr ks)"
      by (subst (asm) getR2KeysLoop.simps) (simp add: Let_def)
    from "1.IH"[OF refl nf refl refl Some rec "1.prems"(2)]
    have "k \<in> set ?mk \<or> (k \<in> set (bucket w) \<and> startsWith k pfx)" by (simp add: io_def)
    with page show ?thesis by blast
  qed
qed

lemma r2_keys_managed:
  assumes "getMediaKeysFromR2 F w = (w', Inr ks)"
  shows "list_all managed ks"
proof -
  have "managed k" if k: "k \<in> set ks" for k
  proof -
    from assms obtain w1 mk1 w2 mk2 where
      s1: "getR2KeysLoop F PRODUCT_IMAGE_PREFIX None [] w = (w1, Inr mk1)" and
      s2: "getR2KeysLoop F PRODUCT_THUMBNAIL_PREFIX None mk1 w1 = (w2, Inr mk2)" and
      s3: "getR2KeysLoop F CATEGORY_THUMBNAIL_PREFIX None mk2 w2 = (w', Inr ks)"
      by (auto simp: getMediaKeysFromR2_def getR2KeysWithPrefix_def split: prod.splits sum.splits)
    from r2loop_keys[OF s3 k] r2loop_keys[OF s2] r2loop_keys[OF s1]
    show ?thesis by (auto simp: managed_def)
  qed
  then show ?thesis by (simp add: list_all_iff)
qed

lemma deleteBatches_bucket:
  "deleteBatches F ks i w = (w', r) \<Longrightarrow> k \<in> set (bucket w) \<Longrightarrow> k \<notin> set ks \<Longrightarrow>
     k \<in> set (bucket w')"
proof (induction F ks i w arbitrary: w' r rule: deleteBatches.induct)
  case (1 F ks i w)
  show ?case
  proof (cases "i < length ks")
    case False
    with "1.prems" show ?thesis by (subst (asm) deleteBatches.simps) simp
  next
    case True
    let ?b = "slice ks i (i + batchSize)"
    let ?w1 = "io (DeleteObjects ?b) w"
    show ?thesis
    proof (cases "F (DeleteObjects ?b)")
      case True
      with \<open>i < length ks\<close> "1.prems" show ?thesis
        by (subst (asm) deleteBatches.simps) (auto simp: io_def Let_def)
    next
      case False
      with \<open>i < length ks\<close> "1.prems"(1)
      have rec: "deleteBatches F ks (i + batchSize) (?w1\<lparr>bucket := fst (deleteObjects (undeletable ?w1) ?b (bucket ?w1))\<rparr>) = (w', r)"
        by (subst (asm) deleteBatches.simps) (simp add: Let_def)
      have "set ?b \<subseteq> set ks"
        by (auto simp: slice_def dest!: in_set_takeD in_set_dropD)
      then have "k \<in> set (bucket (?w1\<lparr>bucket := fst (deleteObjects (undeletable ?w1) ?b (bucket ?w1))\<rparr>))"
        using "1.prems"(2,3) by (auto simp: io_def deleteObjects_def)
      from "1.IH"[OF \<open>i < length ks\<close> refl refl False rec this "1.prems"(3)] show ?thesis .
    qed
  qed
qed

lemma set_nthBatch: "set (nthBatch ks m) \<subseteq> set ks"
  by (auto simp: nthBatch_def slice_def dest!: in_set_takeD in_set_dropD)

lemma delete_calls_shape:
  assumes "deleteOrphanedR2Files F ks w = (w', r)"
  shows "\<exists>n. calls w' = calls w @ map (\<lambda>m. DeleteObjects (nthBatch ks m)) [0..<n]"
proof (cases "ks = []")
  case True
  with assms have "w' = w" by (simp add: deleteOrphanedR2Files_def)
  then show ?thesis by (intro exI[of _ 0]) simp
next
  case False
  then have loop: "deleteBatches F ks (0 * batchSize) w = (w', r)"
    using assms by (simp add: deleteOrphanedR2Files_def)
  show ?thesis
  proof (cases r)
    case (Inl e)
    with loop deleteBatches_failure[of F ks 0 w w' e] show ?thesis by blast
  next
    case (Inr u)
    with loop deleteBatches_success[of F ks 0 w w' u] show ?thesis by blast
  qed
qed

lemma delete_within_prefixes:
  assumes "deleteOrphanedR2Files F ks w = (w', r)" and "list_all managed ks"
  shows "extends within_prefixes w w'"
proof -
  have b: "within_prefixes (DeleteObjects (nthBatch ks m))" for m
    using assms(2) set_nthBatch[of ks m] by (auto simp: list_all_iff)
  have fr: "connected w' = connected w \<and> isCleanupRunning w' = isCleanupRunning w \<and>
            undeletable w' = undeletable w"
    using delete_frame[OF assms(1)] by simp
  from delete_calls_shape[OF assms(1)] obtain n where
    "calls w' = calls w @ map (\<lambda>m. DeleteObjects (nthBatch ks m)) [0..<n]" ..
  with b fr show ?thesis by (auto simp: extends_def)
qed

lemma delete_bucket_kept:
  assumes "deleteOrphanedR2Files F ks w = (w', r)" and "k \<in> set (bucket w)" and "k \<notin> set ks"
  shows "k \<in> set (bucket w')"
  using assms by (auto simp: deleteOrphanedR2Files_def dest: deleteBatches_bucket split: if_splits)

lemma pullImages_kept: "list_all managed ks \<Longrightarrow> product_kept p (pullImages ks p)"
  by (auto simp: product_kept_def pullImages_def list_all_iff split: option.splits intro: filter_cong)

lemma nullProductThumbnail_kept: "list_all managed ks \<Longrightarrow> product_kept p (nullProductThumbnail ks p)"
  by (auto simp: product_kept_def nullProductThumbnail_def list_all_iff split: option.splits)

lemma nullCategoryThumbnail_kept: "list_all managed ks \<Longrightarrow> category_kept c (nullCategoryThumbnail ks c)"
  by (auto simp: category_kept_def nullCategoryThumbnail_def list_all_iff split: option.splits)

lemma product_kept_refl: "product_kept p p"
  by (simp add: product_kept_def split: option.splits)

lemma category_kept_refl: "category_kept c c"
  by (simp add: category_kept_def split: option.splits)

lemma product_kept_trans: "product_kept p q \<Longrightarrow> product_kept q r \<Longrightarrow> product_kept p r"
  by (auto simp: product_kept_def split: option.splits)

lemma list_all2_map_kept: "(\<And>x. P x (f x)) \<Longrightarrow> list_all2 P xs (map f xs)"
  by (simp add: list_all2_conv_all_nth)

lemma filter_managed: "list_all managed ks \<Longrightarrow> list_all managed (filter P ks)"
  by (simp add: list_all_iff)

lemma cleanup_within_prefixes:
  assumes run: "cleanupDanglingDatabaseReferences F ks w = (w', r)" and m: "list_all managed ks"
  shows "extends within_prefixes w w' \<and>
         list_all2 product_kept (products w) (products w') \<and>
         list_all2 category_kept (categories w) (categories w')"
proof (cases "ks = [] \<or> \<not> connected w")
  case True
  with run have "w' = w"
    by (auto simp: cleanupDanglingDatabaseReferences_def executeDbOperation_def split: if_splits)
  then show ?thesis
    by (simp add: extends_refl list_all2_conv_all_nth product_kept_refl category_kept_refl)
next
  case False
  then have con: "connected w" and ne: "ks \<noteq> []" by simp_all
  note g = cleanup_groups_effect[OF con ne run]
  have mm: "list_all managed (productImageKeys ks)" "list_all managed (productThumbnailKeys ks)"
    "list_all managed (categoryThumbnailKeys ks)"
    using m by (simp_all add: productImageKeys_def productThumbnailKeys_def categoryThumbnailKeys_def
                  filter_managed)
  have fr: "connected w' = connected w \<and> isCleanupRunning w' = isCleanupRunning w \<and>
            undeletable w' = undeletable w"
    using dangling_frame[OF run] by simp
  have "\<exists>cs. calls w' = calls w @ cs"
    using run con ne
    by (auto simp: cleanupDanglingDatabaseReferences_def executeDbOperation_def runUpdate_def
                   io_def Let_def split: if_splits)
  then obtain cs where cs: "calls w' = calls w @ cs" ..
  then have "cs = new_calls w w'" by (simp add: new_calls_def)
  then have "\<forall>c \<in> set cs. within_prefixes c"
    using g(1) mm by (auto split: if_splits)
  then have e: "extends within_prefixes w w'"
    using cs fr by (auto simp: extends_def)
  have p: "list_all2 product_kept (products w) (products w')"
    unfolding g(2)
    by (rule list_all2_map_kept)
       (auto simp: product_kept_refl intro: pullImages_kept nullProductThumbnail_kept mm
             product_kept_trans[OF pullImages_kept nullProductThumbnail_kept])
  have c: "list_all2 category_kept (categories w) (categories w')"
    unfolding g(3)
    by (rule list_all2_map_kept) (auto simp: category_kept_refl intro: nullCategoryThumbnail_kept mm)
  show ?thesis using e p c by simp
qed

lemma category_kept_trans: "category_kept p q \<Longrightarrow> category_kept q r \<Longrightarrow> category_kept p r"
  by (auto simp: category_kept_def split: option.splits)

lemma stays_withinI:
  assumes "extends within_prefixes w w'"
    and "\<And>k. k \<in> set (bucket w) \<Longrightarrow> \<not> managed k \<Longrightarrow> k \<in> set (bucket w')"
    and "list_all2 product_kept (products w) (products w')"
    and "list_all2 category_kept (categories w) (categories w')"
  shows "stays_within w w'"
  using assms by (auto simp: stays_within_def extends_def new_calls_def list_all_iff)

lemma stays_within_same:
  assumes "same_stores w w'" and "extends within_prefixes w w'"
  shows "stays_within w w'"
  using assms(1)
  by (intro stays_withinI[OF assms(2)])
     (simp_all add: same_stores_def list_all2_conv_all_nth product_kept_refl category_kept_refl)

lemma stays_within_calls:
  "stays_within w w' \<Longrightarrow> calls w' = calls w @ cs \<Longrightarrow> list_all within_prefixes cs"
  by (simp add: stays_within_def new_calls_def)

lemma stays_within_trans:
  assumes a: "stays_within w w1" and b: "stays_within w1 w2"
    and c1: "calls w1 = calls w @ cs1" and c2: "calls w2 = calls w1 @ cs2"
  shows "stays_within w w2"
proof -
  have "new_calls w w2 = cs1 @ cs2" using c1 c2 by (simp add: new_calls_def)
  moreover have "list_all within_prefixes cs1" "list_all within_prefixes cs2"
    using a b c1 c2 by (auto dest: stays_within_calls)
  ultimately have 1: "list_all within_prefixes (new_calls w w2)" by simp
  have 2: "list_all (\<lambda>k. managed k \<or> k \<in> set (bucket w2)) (bucket w)"
    using a b by (auto simp: stays_within_def list_all_iff)
  have 3: "list_all2 product_kept (products w) (products w2)"
    using a b by (auto simp: stays_within_def intro: list_all2_trans[OF product_kept_trans])
  have 4: "list_all2 category_kept (categories w) (categories w2)"
    using a b by (auto simp: stays_within_def intro: list_all2_trans[OF category_kept_trans])
  show ?thesis using 1 2 3 4 by (simp add: stays_within_def)
qed

lemma extends_callsE: "extends P w w' \<Longrightarrow> \<exists>cs. calls w' = calls w @ cs"
  by (auto simp: extends_def)

lemma try_stays_within:
  assumes t: "cleanupMediaFilesTry F w = (w', r)"
  shows "stays_within w w' \<and> (\<exists>cs. calls w' = calls w @ cs)"
proof -
  obtain w1 r1 where s1: "getMediaKeysFromDatabase F w = (w1, r1)"
    by (cases "getMediaKeysFromDatabase F w")
  have e1: "extends within_prefixes w w1" and st1: "same_stores w w1"
    using db_frame[OF s1] by (auto elim!: extends_weaken)
  have i1: "stays_within w w1" by (rule stays_within_same[OF st1 e1])
  from extends_callsE[OF e1] obtain cs1 where c1: "calls w1 = calls w @ cs1" ..
  show ?thesis
  proof (cases r1)
    case (Inl e)
    with t s1 have "w' = w1" by (simp add: cleanupMediaFilesTry_def)
    with i1 c1 show ?thesis by blast
  next
    case (Inr dbKeys)
    note r1 = this
    have mdb: "list_all managed dbKeys" using s1 r1 db_keys_managed by blast
    obtain w2 r2 where s2: "getMediaKeysFromR2 F w1 = (w2, r2)"
      by (cases "getMediaKeysFromR2 F w1")
    have e2: "extends within_prefixes w1 w2" and st2: "same_stores w1 w2"
      using r2_frame[OF s2] by (auto elim!: extends_weaken)
    from extends_callsE[OF e2] obtain cs2 where c2: "calls w2 = calls w1 @ cs2" ..
    have i2: "stays_within w w2"
      by (rule stays_within_trans[OF i1 stays_within_same[OF st2 e2] c1 c2])
    have c02: "calls w2 = calls w @ (cs1 @ cs2)" using c1 c2 by simp
    show ?thesis
    proof (cases r2)
      case (Inl e)
      with t s1 r1 s2 have "w' = w2" by (simp add: cleanupMediaFilesTry_def)
      with i2 c02 show ?thesis by blast
    next
      case (Inr r2Keys)
      note r2 = this
      have mr2: "list_all managed r2Keys" using s2 r2 r2_keys_managed by blast
      let ?orph = "filter (\<lambda>k. k \<notin> set dbKeys) r2Keys"
      let ?dang = "filter (\<lambda>k. k \<notin> set r2Keys) dbKeys"
      obtain w3 r3 where s3: "deleteOrphanedR2Files F ?orph w2 = (w3, r3)"
        by (cases "deleteOrphanedR2Files F ?orph w2")
      have mo: "list_all managed ?orph" using mr2 by (rule filter_managed)
      have e3: "extends within_prefixes w2 w3" by (rule delete_within_prefixes[OF s3 mo])
      have b3: "k \<in> set (bucket w3)" if "k \<in> set (bucket w2)" "\<not> managed k" for k
        using delete_bucket_kept[OF s3 that(1)] that(2) mo by (auto simp: list_all_iff)
      have d3: "products w3 = products w2" "categories w3 = categories w2"
        using delete_frame[OF s3] by simp_all
      have j3: "stays_within w2 w3"
        by (rule stays_withinI[OF e3 b3])
           (simp_all add: d3 list_all2_conv_all_nth product_kept_refl category_kept_refl)
      from extends_callsE[OF e3] obtain cs3 where c3: "calls w3 = calls w2 @ cs3" ..
      have i3: "stays_within w w3" by (rule stays_within_trans[OF i2 j3 c02 c3])
      have c03: "calls w3 = calls w @ (cs1 @ cs2 @ cs3)" using c02 c3 by simp
      show ?thesis
      proof (cases r3)
        case (Inl e)
        with t s1 r1 s2 r2 s3 have "w' = w3" by (simp add: cleanupMediaFilesTry_def)
        with i3 c03 show ?thesis by blast
      next
        case (Inr u)
        note r3 = this
        obtain w4 r4 where s4: "cleanupDanglingDatabaseReferences F ?dang w3 = (w4, r4)"
          by (cases "cleanupDanglingDatabaseReferences F ?dang w3")
        have md: "list_all managed ?dang" using mdb by (rule filter_managed)
        note k4 = cleanup_within_prefixes[OF s4 md]
        have b4: "bucket w4 = bucket w3" using dangling_frame[OF s4] by simp
        have j4: "stays_within w3 w4"
          using k4 b4 by (intro stays_withinI) simp_all
        from k4 extends_callsE obtain cs4 where c4: "calls w4 = calls w3 @ cs4" by blast
        have i4: "stays_within w w4" by (rule stays_within_trans[OF i3 j4 c03 c4])
        have "w' = w4" using t s1 r1 s2 r2 s3 r3 s4
          by (cases r4) (simp_all add: cleanupMediaFilesTry_def)
        with i4 c03 c4 show ?thesis by simp
      qed
    qed
  qed
qed

text \<open>
  Claim C7. For every state and every pattern of failures, in a call of the
  reconciliation: every request sent names only managed prefixes (list requests) or keys
  under them (delete and update requests); every key of the bucket outside the managed
  prefixes is still in the bucket afterwards; in every document the array values and the
  thumbnail outside the managed prefixes are what they were; and every key the lister
  returns is under a managed prefix.
\<close>

theorem engine_stays_within_prefixes:
  "list_all within_prefixes (new_calls w (fst (cleanupMediaFiles F w))) \<and>
   list_all (\<lambda>k. managed k \<or> k \<in> set (bucket (fst (cleanupMediaFiles F w)))) (bucket w) \<and>
   list_all2 product_kept (products w) (products (fst (cleanupMediaFiles F w))) \<and>
   list_all2 category_kept (categories w) (categories (fst (cleanupMediaFiles F w))) \<and>
   (case snd (getMediaKeysFromR2 F w) of Inl e \<Rightarrow> True | Inr ks \<Rightarrow> list_all managed ks)"
proof -
  have lister: "case snd (getMediaKeysFromR2 F w) of Inl e \<Rightarrow> True | Inr ks \<Rightarrow> list_all managed ks"
    using r2_keys_managed[of F w "fst (getMediaKeysFromR2 F w)"]
    by (cases "getMediaKeysFromR2 F w") (auto split: sum.splits)
  have "stays_within w (fst (cleanupMediaFiles F w))"
  proof (cases "isCleanupRunning w")
    case True
    then show ?thesis
      by (simp add: cleanupMediaFiles_def stays_within_def new_calls_def list_all_iff
               list_all2_conv_all_nth product_kept_refl category_kept_refl)
  next
    case False
    obtain w' r where t: "cleanupMediaFilesTry F (w\<lparr>isCleanupRunning := True\<rparr>) = (w', r)"
      by (cases "cleanupMediaFilesTry F (w\<lparr>isCleanupRunning := True\<rparr>)")
    from try_stays_within[OF t] have "stays_within (w\<lparr>isCleanupRunning := True\<rparr>) w'" by simp
    then have "stays_within w (w'\<lparr>isCleanupRunning := False\<rparr>)"
      by (simp add: stays_within_def new_calls_def)
    with False t show ?thesis by (simp add: cleanupMediaFiles_def)
  qed
  with lister show ?thesis by (simp add: stays_within_def)
qed

theorem engine_stays_within_prefixes_witness:
  "new_calls world_E (fst (cleanupMediaFiles no_failure world_E)) =
     [FindProducts, FindCategories,
      ListObjects PRODUCT_IMAGE_PREFIX None, ListObjects PRODUCT_THUMBNAIL_PREFIX None,
      ListObjects CATEGORY_THUMBNAIL_PREFIX None,
      DeleteObjects [K2], PullProductImages [K3], NullCategoryThumbnails [K5]] \<and>
   list_all within_prefixes (new_calls world_E (fst (cleanupMediaFiles no_failure world_E))) \<and>
   bucket (fst (cleanupMediaFiles no_failure world_E)) = [''data/banner.png''] \<and>
   products (fst (cleanupMediaFiles no_failure world_E)) =
     [\<lparr>images = [''data/banner.png''], thumbnail = Some ''https://cdn.example.com/t.png''\<rparr>] \<and>
   categories (fst (cleanupMediaFiles no_failure world_E)) = [\<lparr>cat_thumbnail = None\<rparr>]"
proof -
  have ev: "new_calls world_E (fst (cleanupMediaFiles no_failure world_E)) =
     [FindProducts, FindCategories,
      ListObjects PRODUCT_IMAGE_PREFIX None, ListObjects PRODUCT_THUMBNAIL_PREFIX None,
      ListObjects CATEGORY_THUMBNAIL_PREFIX None,
      DeleteObjects [K2], PullProductImages [K3], NullCategoryThumbnails [K5]]"
    "bucket (fst (cleanupMediaFiles no_failure world_E)) = [''data/banner.png'']"
    "products (fst (cleanupMediaFiles no_failure world_E)) =
       [\<lparr>images = [''data/banner.png''], thumbnail = Some ''https://cdn.example.com/t.png''\<rparr>]"
    "categories (fst (cleanupMediaFiles no_failure world_E)) = [\<lparr>cat_thumbnail = None\<rparr>]"
    by code_simp+
  show ?thesis
    using engine_stays_within_prefixes[of world_E no_failure] by (simp add: ev)
qed

section \<open>Reconciliation of the two stores\<close>

lemma distinct_set_add: "distinct s \<Longrightarrow> distinct (set_add s k)"
  by (simp add: set_add_def)

lemma distinct_foldl_cond_add:
  "distinct s0 \<Longrightarrow> distinct (foldl (\<lambda>s k. if P k then set_add s k else s) s0 xs)"
  by (induction xs arbitrary: s0) (simp_all add: distinct_set_add)

lemma distinct_addProductKeys: "distinct mk \<Longrightarrow> distinct (addProductKeys mk p)"
  by (auto simp: addProductKeys_def Let_def distinct_set_add intro!: distinct_foldl_cond_add
           split: option.splits)

lemma distinct_addCategoryKeys: "distinct mk \<Longrightarrow> distinct (addCategoryKeys mk c)"
  by (auto simp: addCategoryKeys_def distinct_set_add split: option.splits)

lemma distinct_foldl_addProductKeys: "distinct mk \<Longrightarrow> distinct (foldl addProductKeys mk ps)"
  by (induction ps arbitrary: mk) (simp_all add: distinct_addProductKeys)

lemma distinct_foldl_addCategoryKeys: "distinct mk \<Longrightarrow> distinct (foldl addCategoryKeys mk cs)"
  by (induction cs arbitrary: mk) (simp_all add: distinct_addCategoryKeys)

lemma db_keys_distinct:
  "getMediaKeysFromDatabase F w = (w', Inr ks) \<Longrightarrow> distinct ks"
  by (auto simp: getMediaKeysFromDatabase_def executeDbOperation_def Let_def
           split: if_splits
           intro!: distinct_foldl_addCategoryKeys distinct_foldl_addProductKeys)

lemma r2loop_distinct:
  "getR2KeysLoop F pfx tok mk w = (w', Inr ks) \<Longrightarrow> distinct mk \<Longrightarrow> distinct ks"
proof (induction F pfx tok mk w arbitrary: w' rule: getR2KeysLoop.induct)
  case (1 F pfx tok mk w)
  let ?w1 = "io (ListObjects pfx tok) w"
  let ?resp = "listObjectsV2 (bucket ?w1) pfx 1000 tok"
  let ?mk = "foldl (\<lambda>s k. if k \<noteq> [] then set_add s k else s) mk (fst ?resp)"
  have nf: "\<not> F (ListObjects pfx tok)"
    using "1.prems"(1) by (subst (asm) getR2KeysLoop.simps) (auto split: if_splits)
  have d: "distinct ?mk" using "1.prems"(2) by (rule distinct_foldl_cond_add)
  show ?case
  proof (cases "snd ?resp")
    case None
    with nf "1.prems"(1) have "ks = ?mk"
      by (subst (asm) getR2KeysLoop.simps) (auto simp: Let_def)
    with d show ?thesis by simp
  next
    case (Some t)
    with nf "1.prems"(1) have rec: "getR2KeysLoop F pfx (Some t) ?mk ?w1 = (w', Inr ks)"
      by (subst (asm) getR2KeysLoop.simps) (simp add: Let_def)
    from "1.IH"[OF refl nf refl refl Some rec d] show ?thesis .
  qed
qed

lemma r2_keys_distinct:
  assumes "getMediaKeysFromR2 F w = (w', Inr ks)"
  shows "distinct ks"
proof -
  from assms obtain w1 mk1 w2 mk2 where
    s1: "getR2KeysLoop F PRODUCT_IMAGE_PREFIX None [] w = (w1, Inr mk1)" and
    s2: "getR2KeysLoop F PRODUCT_THUMBNAIL_PREFIX None mk1 w1 = (w2, Inr mk2)" and
    s3: "getR2KeysLoop F CATEGORY_THUMBNAIL_PREFIX None mk2 w2 = (w', Inr ks)"
    by (auto simp: getMediaKeysFromR2_def getR2KeysWithPrefix_def split: prod.splits sum.splits)
  from r2loop_distinct[OF s1] have "distinct mk1" by simp
  from r2loop_distinct[OF s2 this] have "distinct mk2" .
  from r2loop_distinct[OF s3 this] show ?thesis .
qed

lemma length_filter_card:
  "distinct xs \<Longrightarrow> length (filter (\<lambda>k. k \<notin> set ys) xs) = card (set xs - set ys)"
proof -
  assume d: "distinct xs"
  have "set (filter (\<lambda>k. k \<notin> set ys) xs) = set xs - set ys" by auto
  moreover have "distinct (filter (\<lambda>k. k \<notin> set ys) xs)" using d by simp
  ultimately show ?thesis by (metis distinct_card)
qed

lemma product_cleaned_step:
  "product_cleaned D p (nullProductThumbnail (productThumbnailKeys D) (pullImages (productImageKeys D) p))"
  by (auto simp: product_cleaned_def nullProductThumbnail_def pullImages_def productThumbnailKeys_def
                 productImageKeys_def split: option.splits intro: filter_cong)

lemma category_cleaned_step:
  "category_cleaned D c (nullCategoryThumbnail (categoryThumbnailKeys D) c)"
  by (auto simp: category_cleaned_def nullCategoryThumbnail_def categoryThumbnailKeys_def
           split: option.splits)

lemma pullImages_Nil: "pullImages [] = id"
  by (rule ext) (simp add: pullImages_def)

lemma nullProductThumbnail_Nil: "nullProductThumbnail [] = id"
  by (rule ext) (simp add: nullProductThumbnail_def split: option.splits)

lemma nullCategoryThumbnail_Nil: "nullCategoryThumbnail [] = id"
  by (rule ext) (simp add: nullCategoryThumbnail_def split: option.splits)

lemma cleanup_success_exact:
  assumes con: "connected w" and run: "cleanupDanglingDatabaseReferences F D w = (w', Inr u)"
  shows "products w' = map (\<lambda>p. nullProductThumbnail (productThumbnailKeys D)
                                 (pullImages (productImageKeys D) p)) (products w) \<and>
         categories w' = map (nullCategoryThumbnail (categoryThumbnailKeys D)) (categories w)"
proof (cases "D = []")
  case True
  with run have "w' = w" by (simp add: cleanupDanglingDatabaseReferences_def)
  with True show ?thesis
    by (simp add: productThumbnailKeys_def productImageKeys_def categoryThumbnailKeys_def
          pullImages_Nil nullProductThumbnail_Nil nullCategoryThumbnail_Nil)
next
  case False
  note g = cleanup_groups_effect[OF con False run]
  have ok: "\<not> (productImageKeys D \<noteq> [] \<and> F (PullProductImages (productImageKeys D)))"
    "\<not> (productThumbnailKeys D \<noteq> [] \<and> F (NullProductThumbnails (productThumbnailKeys D)))"
    "\<not> (categoryThumbnailKeys D \<noteq> [] \<and> F (NullCategoryThumbnails (categoryThumbnailKeys D)))"
    using g(4) by (auto split: if_splits)
  have p: "products w' = map (\<lambda>p. nullProductThumbnail (productThumbnailKeys D) (pullImages (productImageKeys D) p)) (products w)"
    unfolding g(2) using ok
    by (cases "productImageKeys D = []"; cases "productThumbnailKeys D = []")
       (simp_all add: pullImages_Nil nullProductThumbnail_Nil o_def)
  have c: "categories w' = map (nullCategoryThumbnail (categoryThumbnailKeys D)) (categories w)"
    unfolding g(3) using ok
    by (cases "categoryThumbnailKeys D = []") (simp_all add: nullCategoryThumbnail_Nil)
  show ?thesis using p c by simp
qed

lemma cleanup_success_documents:
  assumes con: "connected w" and run: "cleanupDanglingDatabaseReferences F D w = (w', Inr u)"
  shows "list_all2 (product_cleaned D) (products w) (products w') \<and>
         list_all2 (category_cleaned D) (categories w) (categories w')"
  using cleanup_success_exact[OF con run]
  by (simp add: list_all2_conv_all_nth product_cleaned_step category_cleaned_step)

lemma successful_run_stores:
  assumes db: "getMediaKeysFromDatabase F w0 = (w1, Inr referencedKeys)"
    and r2: "getMediaKeysFromR2 F w1 = (w2, Inr storageKeys)"
    and del: "deleteOrphanedR2Files F (filter (\<lambda>k. k \<notin> set referencedKeys) storageKeys) w2 = (w3, Inr u)"
    and dang: "cleanupDanglingDatabaseReferences F (filter (\<lambda>k. k \<notin> set storageKeys) referencedKeys) w3
                 = (w4, Inr u')"
  shows "bucket w4 = filter (\<lambda>k. k \<notin> set storageKeys - set referencedKeys \<or> k \<in> set (undeletable w0))
                      (bucket w0) \<and>
         products w4 = map (\<lambda>p. nullProductThumbnail
                                   (productThumbnailKeys (filter (\<lambda>k. k \<notin> set storageKeys) referencedKeys))
                                   (pullImages
                                     (productImageKeys (filter (\<lambda>k. k \<notin> set storageKeys) referencedKeys)) p))
                         (products w0) \<and>
         categories w4 = map (nullCategoryThumbnail
                                (categoryThumbnailKeys (filter (\<lambda>k. k \<notin> set storageKeys) referencedKeys)))
                           (categories w0)"
proof -
  let ?O = "filter (\<lambda>k. k \<notin> set referencedKeys) storageKeys"
  let ?D = "filter (\<lambda>k. k \<notin> set storageKeys) referencedKeys"
  have s01: "same_stores w0 w1" and c01: "connected w1 = connected w0"
    and u01: "undeletable w1 = undeletable w0"
    using db_frame[OF db] by (simp_all add: extends_def)
  have s12: "same_stores w1 w2" and c12: "connected w2 = connected w1"
    and u12: "undeletable w2 = undeletable w1"
    using r2_frame[OF r2] by (simp_all add: extends_def)
  have st2: "products w2 = products w0" "categories w2 = categories w0" "bucket w2 = bucket w0"
    using s01 s12 by (simp_all add: same_stores_def)
  have b3: "bucket w3 = fst (deleteObjects (undeletable w2) ?O (bucket w2))"
  proof (cases "?O = []")
    case True
    with del have "w3 = w2" by (simp add: deleteOrphanedR2Files_def)
    with True show ?thesis by (simp add: deleteObjects_def)
  next
    case False
    then have "deleteBatches F ?O (0 * batchSize) w2 = (w3, Inr u)"
      using del by (simp add: deleteOrphanedR2Files_def)
    from deleteBatches_success[OF this] show ?thesis by simp
  qed
  have d3: "products w3 = products w2" "categories w3 = categories w2" "connected w3 = connected w2"
    using delete_frame[OF del] by simp_all
  have con: "connected w3"
    using db_success_connected[OF db] c01 c12 d3(3) by simp
  have b4: "bucket w4 = bucket w3" using dangling_frame[OF dang] by simp
  have bucket: "bucket w4 = filter (\<lambda>k. k \<notin> set storageKeys - set referencedKeys \<or> k \<in> set (undeletable w0))
                             (bucket w0)"
    using b4 b3 st2(3) u01 u12 by (auto simp: deleteObjects_def intro: filter_cong)
  show ?thesis
    using bucket cleanup_success_exact[OF con dang] d3 st2 by simp
qed

text \<open>
  Claim C2 says that for every pair of snapshots the run deletes the keys of
  \<open>storageKeys - referencedKeys\<close>, removes the keys of \<open>referencedKeys - storageKeys\<close> from the
  document fields and returns the two cardinalities. On the code the claim fails in two
  ways. With both snapshots obtained and the delete request failing, the unreferenced key
  \<open>K2\<close> stays in the bucket and the run returns zero counts. With no failure at all, a
  product thumbnail under the image prefix that is not in the bucket is counted as a
  dangling reference and stays in the document.
\<close>

theorem reconciliation_counterexample:
  "snd (getMediaKeysFromDatabase delete_fails (world_A\<lparr>isCleanupRunning := True\<rparr>)) = Inr [K1] \<and>
   snd (getMediaKeysFromR2 delete_fails
          (fst (getMediaKeysFromDatabase delete_fails (world_A\<lparr>isCleanupRunning := True\<rparr>))))
     = Inr [K1, K2] \<and>
   snd (cleanupMediaFiles delete_fails world_A) = zero_counts \<and>
   bucket (fst (cleanupMediaFiles delete_fails world_A)) = [K1, K2] \<and>
   snd (getMediaKeysFromDatabase no_failure (world_T\<lparr>isCleanupRunning := True\<rparr>)) = Inr [K4] \<and>
   snd (getMediaKeysFromR2 no_failure
          (fst (getMediaKeysFromDatabase no_failure (world_T\<lparr>isCleanupRunning := True\<rparr>))))
     = Inr [] \<and>
   snd (cleanupMediaFiles no_failure world_T)
     = \<lparr>orphanedR2Files = 0, danglingSavedReferences = 1\<rparr> \<and>
   products (fst (cleanupMediaFiles no_failure world_T)) = [\<lparr>images = [], thumbnail = Some K4\<rparr>]"
  by code_simp

lemma delete_no_failure:
  assumes "no_batch_fails F ks"
  shows "\<exists>w'. deleteOrphanedR2Files F ks w = (w', Inr ())"
proof (cases "ks = []")
  case True
  then show ?thesis by (simp add: deleteOrphanedR2Files_def)
next
  case False
  have "\<forall>m < batchCount (length ks). \<not> F (DeleteObjects (nthBatch ks m))"
    using assms by (simp add: no_batch_fails_def deleteRequests_def list_all_iff)
  from deleteBatches_no_failure[OF this, of 0 w] False show ?thesis
    by (simp add: deleteOrphanedR2Files_def prod_eq_iff)
qed

lemma delete_some_failure:
  assumes "\<not> no_batch_fails F ks"
  shows "\<exists>w' e. deleteOrphanedR2Files F ks w = (w', Inl e)"
proof -
  obtain w' r where run: "deleteOrphanedR2Files F ks w = (w', r)"
    by (cases "deleteOrphanedR2Files F ks w")
  have ne: "ks \<noteq> []"
    using assms by (auto simp: no_batch_fails_def deleteRequests_def batchCount_def)
  show ?thesis
  proof (cases r)
    case (Inl e)
    with run show ?thesis by blast
  next
    case (Inr u)
    with run ne have "deleteBatches F ks (0 * batchSize) w = (w', Inr u)"
      by (simp add: deleteOrphanedR2Files_def)
    from deleteBatches_success_no_failure[OF this] have "no_batch_fails F ks"
      by (simp add: no_batch_fails_def deleteRequests_def list_all_iff)
    with assms show ?thesis by simp
  qed
qed

lemma delete_success_calls:
  assumes "deleteOrphanedR2Files F ks w = (w', Inr u)"
  shows "calls w' = calls w @ deleteRequests ks"
proof (cases "ks = []")
  case True
  with assms show ?thesis by (simp add: deleteOrphanedR2Files_def deleteRequests_def batchCount_def)
next
  case False
  with assms have "deleteBatches F ks (0 * batchSize) w = (w', Inr u)"
    by (simp add: deleteOrphanedR2Files_def)
  from deleteBatches_success[OF this] show ?thesis by (simp add: deleteRequests_def)
qed

lemma cleanup_outcome:
  assumes con: "connected w" and run: "cleanupDanglingDatabaseReferences F D w = (w', r)"
  shows "calls w' = calls w @ groupUpdates D" and "r = Inr () \<longleftrightarrow> no_group_fails F D"
proof -
  have both: "calls w' = calls w @ groupUpdates D \<and> (r = Inr () \<longleftrightarrow> no_group_fails F D)"
  proof (cases "D = []")
    case True
    with run have "w' = w" "r = Inr ()" by (simp_all add: cleanupDanglingDatabaseReferences_def)
    with True show ?thesis
      by (simp add: groupUpdates_def no_group_fails_def productImageKeys_def productThumbnailKeys_def
            categoryThumbnailKeys_def)
  next
    case False
    note g = cleanup_groups_effect[OF con False run]
    from holds_flag_callsE[OF dangling_holds_flag[OF run]] obtain cs where "calls w' = calls w @ cs" ..
    then have "calls w' = calls w @ new_calls w w'" by (simp add: new_calls_def)
    then have c: "calls w' = calls w @ groupUpdates D" using g(1) by (simp add: groupUpdates_def)
    have "r = Inr () \<longleftrightarrow> no_group_fails F D"
      unfolding g(4) by (auto simp: no_group_fails_def groupUpdates_def)
    with c show ?thesis by simp
  qed
  from both show "calls w' = calls w @ groupUpdates D" by simp
  from both show "r = Inr () \<longleftrightarrow> no_group_fails F D" by simp
qed

lemma is_mutation_deleteRequests: "filter is_mutation (deleteRequests ks) = deleteRequests ks"
  by (simp add: deleteRequests_def filter_map o_def)

lemma is_mutation_groupUpdates: "filter is_mutation (groupUpdates D) = groupUpdates D"
  by (simp add: groupUpdates_def)

text \<open>
  Claim C2, as the code has it. In a run whose two snapshots were obtained, with
  \<open>orphaned\<close> the keys of \<open>storageKeys - referencedKeys\<close> and \<open>dangling\<close> the keys of
  \<open>referencedKeys - storageKeys\<close>. When no delete request and no update request fails: the
  two counts are the cardinalities of the two difference sets; the requests that change a
  store are the delete requests for the batches of \<open>orphaned\<close> followed by one update for
  every non-empty group of \<open>dangling\<close>; the bucket has lost exactly the keys of
  \<open>storageKeys - referencedKeys\<close>, those the store refused to delete excepted (they are
  counted all the same, the answer of the store is not read); every product gallery has
  lost exactly its keys of \<open>dangling\<close> under the image prefix; a product thumbnail of
  \<open>dangling\<close> under the thumbnail prefix and a category thumbnail of \<open>dangling\<close> under the
  category prefix are null, and a thumbnail outside \<open>dangling\<close> is what it was. When a
  delete request or an update request fails, the run returns zero counts.
\<close>

theorem reconciliation_success:
  assumes idle: "\<not> isCleanupRunning w"
    and db: "getMediaKeysFromDatabase F (w\<lparr>isCleanupRunning := True\<rparr>) = (w1, Inr referencedKeys)"
    and r2: "getMediaKeysFromR2 F w1 = (w2, Inr storageKeys)"
    and orph: "orphaned = filter (\<lambda>k. k \<notin> set referencedKeys) storageKeys"
    and dang: "dangling = filter (\<lambda>k. k \<notin> set storageKeys) referencedKeys"
  shows "(no_batch_fails F orphaned \<and> no_group_fails F dangling \<longrightarrow>
            snd (cleanupMediaFiles F w) =
              \<lparr>orphanedR2Files = card (set storageKeys - set referencedKeys),
               danglingSavedReferences = card (set referencedKeys - set storageKeys)\<rparr> \<and>
            filter is_mutation (new_calls w (fst (cleanupMediaFiles F w)))
              = deleteRequests orphaned @ groupUpdates dangling \<and>
            bucket (fst (cleanupMediaFiles F w))
              = filter (\<lambda>k. k \<notin> set storageKeys - set referencedKeys \<or> k \<in> set (undeletable w))
                  (bucket w) \<and>
            list_all2 (product_cleaned dangling) (products w) (products (fst (cleanupMediaFiles F w))) \<and>
            list_all2 (category_cleaned dangling) (categories w)
              (categories (fst (cleanupMediaFiles F w)))) \<and>
         (\<not> (no_batch_fails F orphaned \<and> no_group_fails F dangling) \<longrightarrow>
            snd (cleanupMediaFiles F w) = zero_counts)"
proof -
  let ?w0 = "w\<lparr>isCleanupRunning := True\<rparr>"
  from snapshots_calls[OF db r2] obtain cs where
    con12: "connected w2 = connected ?w0"
    and c12: "calls w2 = calls w @ cs" "filter is_mutation cs = []"
    by auto
  have con2: "connected w2" using db_success_connected[OF db] con12 by simp
  obtain w3 r3 where del: "deleteOrphanedR2Files F orphaned w2 = (w3, r3)"
    by (cases "deleteOrphanedR2Files F orphaned w2")
  show ?thesis
  proof (cases "no_batch_fails F orphaned")
    case False
    from delete_some_failure[OF False, of w2] del obtain e where "r3 = Inl e" by auto
    with del orph have "cleanupMediaFiles F w = (w3\<lparr>isCleanupRunning := False\<rparr>, zero_counts)"
      by (intro run_delete_fails[OF idle db r2]) simp
    with False show ?thesis by simp
  next
    case True
    note nb = this
    from delete_no_failure[OF True, of w2] del have r3: "r3 = Inr ()" by auto
    have del': "deleteOrphanedR2Files F (filter (\<lambda>k. k \<notin> set referencedKeys) storageKeys) w2 = (w3, Inr ())"
      using del r3 orph by simp
    have con3: "connected w3" using delete_frame[OF del'] con2 by simp
    obtain w4 r4 where run4: "cleanupDanglingDatabaseReferences F dangling w3 = (w4, r4)"
      by (cases "cleanupDanglingDatabaseReferences F dangling w3")
    note out = cleanup_outcome[OF con3 run4]
    show ?thesis
    proof (cases "no_group_fails F dangling")
      case False
      then obtain e where "r4 = Inl e" using out(2) by (cases r4) auto
      with run4 dang have "cleanupMediaFiles F w = (w4\<lparr>isCleanupRunning := False\<rparr>, zero_counts)"
        by (intro run_cleanup_fails[OF idle db r2 del']) simp
      with False show ?thesis by simp
    next
      case True
      then have r4: "r4 = Inr ()" using out(2) by simp
      have run4': "cleanupDanglingDatabaseReferences F
                     (filter (\<lambda>k. k \<notin> set storageKeys) referencedKeys) w3 = (w4, Inr ())"
        using run4 r4 dang by simp
      have counts: "length (filter (\<lambda>k. k \<notin> set referencedKeys) storageKeys)
                      = card (set storageKeys - set referencedKeys)"
        "length (filter (\<lambda>k. k \<notin> set storageKeys) referencedKeys)
           = card (set referencedKeys - set storageKeys)"
        using db_keys_distinct[OF db] r2_keys_distinct[OF r2] by (simp_all add: length_filter_card)
      have res: "cleanupMediaFiles F w =
           (w4\<lparr>isCleanupRunning := False\<rparr>,
            \<lparr>orphanedR2Files = card (set storageKeys - set referencedKeys),
             danglingSavedReferences = card (set referencedKeys - set storageKeys)\<rparr>)"
        using run_success[OF idle db r2 del' run4'] counts by simp
      note st = successful_run_stores[OF db r2 del' run4']
      have bucket: "bucket w4 = filter (\<lambda>k. k \<notin> set storageKeys - set referencedKeys \<or>
                                            k \<in> set (undeletable w)) (bucket w)"
        using st by simp
      have docs: "list_all2 (product_cleaned dangling) (products w) (products w4) \<and>
                  list_all2 (category_cleaned dangling) (categories w) (categories w4)"
        using st dang by (simp add: list_all2_conv_all_nth product_cleaned_step category_cleaned_step)
      have "calls w4 = calls w @ cs @ deleteRequests orphaned @ groupUpdates dangling"
        using c12(1) delete_success_calls[OF del'] out(1) orph by simp
      then have "filter is_mutation (new_calls w w4) = deleteRequests orphaned @ groupUpdates dangling"
        using c12(2) by (simp add: new_calls_def is_mutation_deleteRequests is_mutation_groupUpdates)
      then show ?thesis
        unfolding res using nb True bucket docs by (simp add: new_calls_def)
    qed
  qed
qed

theorem reconciliation_success_witness:
  "\<not> isCleanupRunning world_A \<and>
   snd (getMediaKeysFromDatabase no_failure (world_A\<lparr>isCleanupRunning := True\<rparr>)) = Inr [K1] \<and>
   snd (getMediaKeysFromR2 no_failure
          (fst (getMediaKeysFromDatabase no_failure (world_A\<lparr>isCleanupRunning := True\<rparr>))))
     = Inr [K1, K2] \<and>
   no_batch_fails no_failure [K2] \<and> no_group_fails no_failure [] \<and>
   snd (cleanupMediaFiles no_failure world_A) = \<lparr>orphanedR2Files = 1, danglingSavedReferences = 0\<rparr> \<and>
   filter is_mutation (new_calls world_A (fst (cleanupMediaFiles no_failure world_A)))
     = deleteRequests [K2] @ groupUpdates [] \<and>
   deleteRequests [K2] @ groupUpdates [] = [DeleteObjects [K2]] \<and>
   bucket (fst (cleanupMediaFiles no_failure world_A)) = [K1] \<and>
   products (fst (cleanupMediaFiles no_failure world_A)) = products world_A \<and>
   \<not> no_batch_fails delete_fails [K2] \<and>
   snd (cleanupMediaFiles delete_fails world_A) = zero_counts \<and>
   snd (cleanupMediaFiles no_failure world_B) = \<lparr>orphanedR2Files = 0, danglingSavedReferences = 1\<rparr> \<and>
   products (fst (cleanupMediaFiles no_failure world_B)) = [\<lparr>images = [], thumbnail = None\<rparr>] \<and>
   snd (cleanupMediaFiles no_failure world_L) = \<lparr>orphanedR2Files = 1, danglingSavedReferences = 0\<rparr> \<and>
   bucket (fst (cleanupMediaFiles no_failure world_L)) = [K1, K2]"
proof -
  let ?a0 = "world_A\<lparr>isCleanupRunning := True\<rparr>"
  let ?a1 = "fst (getMediaKeysFromDatabase no_failure ?a0)"
  let ?a2 = "fst (getMediaKeysFromR2 no_failure ?a1)"
  let ?f1 = "fst (getMediaKeysFromDatabase delete_fails ?a0)"
  let ?f2 = "fst (getMediaKeysFromR2 delete_fails ?f1)"
  have idle: "\<not> isCleanupRunning world_A" by (simp add: world_A_def)
  have a: "snd (getMediaKeysFromDatabase no_failure ?a0) = Inr [K1]" by code_simp
  have b: "snd (getMediaKeysFromR2 no_failure ?a1) = Inr [K1, K2]" by code_simp
  have a': "snd (getMediaKeysFromDatabase delete_fails ?a0) = Inr [K1]" by code_simp
  have b': "snd (getMediaKeysFromR2 delete_fails ?f1) = Inr [K1, K2]" by code_simp
  have o: "[K2] = filter (\<lambda>k. k \<notin> set [K1]) [K1, K2]" by code_simp
  have d: "[] = filter (\<lambda>k. k \<notin> set [K1, K2]) [K1]" by simp
  have ok: "no_batch_fails no_failure [K2]" "no_group_fails no_failure []"
    by (simp_all add: no_batch_fails_def no_group_fails_def no_failure_def list_all_iff)
  have bad: "\<not> no_batch_fails delete_fails [K2]" by code_simp
  have req: "deleteRequests [K2] @ groupUpdates [] = [DeleteObjects [K2]]" by code_simp
  have h1: "getMediaKeysFromDatabase no_failure ?a0 = (?a1, Inr [K1])"
    using a by (simp add: prod_eq_iff)
  have h2: "getMediaKeysFromR2 no_failure ?a1 = (?a2, Inr [K1, K2])"
    using b by (simp add: prod_eq_iff)
  have h1': "getMediaKeysFromDatabase delete_fails ?a0 = (?f1, Inr [K1])"
    using a' by (simp add: prod_eq_iff)
  have h2': "getMediaKeysFromR2 delete_fails ?f1 = (?f2, Inr [K1, K2])"
    using b' by (simp add: prod_eq_iff)
  have ev: "snd (cleanupMediaFiles no_failure world_A) = \<lparr>orphanedR2Files = 1, danglingSavedReferences = 0\<rparr>"
    "bucket (fst (cleanupMediaFiles no_failure world_A)) = [K1]"
    "products (fst (cleanupMediaFiles no_failure world_A)) = products world_A"
    "snd (cleanupMediaFiles no_failure world_B) = \<lparr>orphanedR2Files = 0, danglingSavedReferences = 1\<rparr>"
    "products (fst (cleanupMediaFiles no_failure world_B)) = [\<lparr>images = [], thumbnail = None\<rparr>]"
    "snd (cleanupMediaFiles no_failure world_L) = \<lparr>orphanedR2Files = 1, danglingSavedReferences = 0\<rparr>"
    "bucket (fst (cleanupMediaFiles no_failure world_L)) = [K1, K2]"
    by code_simp+
  have s: "filter is_mutation (new_calls world_A (fst (cleanupMediaFiles no_failure world_A)))
             = deleteRequests [K2] @ groupUpdates []"
    using reconciliation_success[OF idle h1 h2 o d] ok by blast
  have z: "snd (cleanupMediaFiles delete_fails world_A) = zero_counts"
    using reconciliation_success[OF idle h1' h2' o d] bad by blast
  show ?thesis
    using idle a b ok bad req ev s z by simp
qed

section \<open>A second run\<close>

text \<open>
  Claim C6 says that a second run, right after a run that completed, returns zero counts.
  A product whose thumbnail is a key under the image prefix (not under the thumbnail
  prefix) that the bucket does not hold: the collector counts the thumbnail as referenced,
  the cleaner only pulls the key from the gallery arrays, so the first run completes with
  one dangling reference, the thumbnail stays, and the second run reports it again.
\<close>

theorem second_run_reports_dangling_thumbnail:
  "cleanupMediaFiles no_failure world_T =
     (world_T\<lparr>calls := [FindProducts, FindCategories,
                        ListObjects PRODUCT_IMAGE_PREFIX None, ListObjects PRODUCT_THUMBNAIL_PREFIX None,
                        ListObjects CATEGORY_THUMBNAIL_PREFIX None, PullProductImages [K4]],
              flagAtCall := [True, True, True, True, True, True]\<rparr>,
      \<lparr>orphanedR2Files = 0, danglingSavedReferences = 1\<rparr>) \<and>
   snd (cleanupMediaFiles no_failure (fst (cleanupMediaFiles no_failure world_T)))
     = \<lparr>orphanedR2Files = 0, danglingSavedReferences = 1\<rparr>"
  by code_simp

lemma startsWith_nonempty:
  "startsWith t PRODUCT_IMAGE_PREFIX \<or> startsWith t PRODUCT_THUMBNAIL_PREFIX \<or>
   startsWith t CATEGORY_THUMBNAIL_PREFIX \<Longrightarrow> t \<noteq> []"
  by (auto simp: startsWith_def PRODUCT_IMAGE_PREFIX_def PRODUCT_THUMBNAIL_PREFIX_def
                 CATEGORY_THUMBNAIL_PREFIX_def)

lemma startsWith_regexPrefixI: "startsWith t p \<Longrightarrow> regexPrefixI p t"
  by (auto simp: startsWith_def regexPrefixI_def prefix_def)

lemma set_addProductKeys: "set (addProductKeys mk p) = set mk \<union> refs_product p"
  using startsWith_nonempty
  by (auto simp: addProductKeys_def refs_product_def set_foldl_cond_add set_set_add Let_def
           split: option.splits if_splits)

lemma set_addCategoryKeys: "set (addCategoryKeys mk c) = set mk \<union> refs_category c"
  using startsWith_nonempty
  by (auto simp: addCategoryKeys_def refs_category_def set_set_add split: option.splits if_splits)

lemma set_foldl_addProductKeys:
  "set (foldl addProductKeys mk ps) = set mk \<union> (\<Union>p \<in> set ps. refs_product p)"
  by (induction ps arbitrary: mk) (auto simp: set_addProductKeys)

lemma set_foldl_addCategoryKeys:
  "set (foldl addCategoryKeys mk cs) = set mk \<union> (\<Union>c \<in> set cs. refs_category c)"
  by (induction cs arbitrary: mk) (auto simp: set_addCategoryKeys)

lemma refs_product_query: "\<not> productQuery p \<Longrightarrow> refs_product p = {}"
  by (auto simp: productQuery_def refs_product_def split: option.splits dest: startsWith_regexPrefixI)

lemma refs_category_query: "\<not> categoryQuery c \<Longrightarrow> refs_category c = {}"
  by (auto simp: categoryQuery_def refs_category_def split: option.splits dest: startsWith_regexPrefixI)

lemma db_keys_referenced:
  assumes "getMediaKeysFromDatabase F w = (w', Inr ks)"
  shows "set ks = referenced w"
proof -
  have p: "(\<Union>p \<in> {x \<in> set ps. productQuery x}. refs_product p) = (\<Union>p \<in> set ps. refs_product p)" for ps
    using refs_product_query by fastforce
  have c: "(\<Union>c \<in> {x \<in> set cs. categoryQuery x}. refs_category c) = (\<Union>c \<in> set cs. refs_category c)" for cs
    using refs_category_query by fastforce
  have "ks = foldl addCategoryKeys (foldl addProductKeys [] (filter productQuery (products w)))
               (filter categoryQuery (categories w))"
    using assms
    by (auto simp: getMediaKeysFromDatabase_def executeDbOperation_def Let_def io_def split: if_splits)
  then show ?thesis
    by (simp add: set_foldl_addCategoryKeys set_foldl_addProductKeys p c referenced_def)
qed

lemma r2loop_keys_exact:
  "getR2KeysLoop F pfx tok mk w = (w', Inr ks) \<Longrightarrow>
     set ks = set mk \<union>
       {k \<in> set (drop (case tok of None \<Rightarrow> 0 | Some t \<Rightarrow> t)
                      (filter (\<lambda>k. startsWith k pfx) (bucket w))). k \<noteq> []}"
proof (induction F pfx tok mk w arbitrary: w' rule: getR2KeysLoop.induct)
  case (1 F pfx tok mk w)
  let ?w1 = "io (ListObjects pfx tok) w"
  let ?start = "case tok of None \<Rightarrow> 0 | Some t \<Rightarrow> t"
  let ?matching = "filter (\<lambda>k. startsWith k pfx) (bucket w)"
  let ?resp = "listObjectsV2 (bucket ?w1) pfx 1000 tok"
  let ?mk = "foldl (\<lambda>s k. if k \<noteq> [] then set_add s k else s) mk (fst ?resp)"
  have nf: "\<not> F (ListObjects pfx tok)"
    using "1.prems"(1) by (subst (asm) getR2KeysLoop.simps) (auto split: if_splits)
  have page: "fst ?resp = take 1000 (drop ?start ?matching)"
    by (simp add: listObjectsV2_def io_def Let_def)
  have mk: "set ?mk = set mk \<union> {k \<in> set (take 1000 (drop ?start ?matching)). k \<noteq> []}"
    unfolding page by (simp add: set_foldl_cond_add)
  show ?case
  proof (cases "snd ?resp")
    case None
    then have "\<not> ?start + 1000 < length ?matching"
      by (auto simp: listObjectsV2_def io_def Let_def split: if_splits)
    then have all: "take 1000 (drop ?start ?matching) = drop ?start ?matching" by simp
    from None nf "1.prems"(1) have "ks = ?mk"
      by (subst (asm) getR2KeysLoop.simps) (auto simp: Let_def)
    with mk all show ?thesis by simp
  next
    case (Some t)
    then have t: "t = ?start + 1000"
      by (auto simp: listObjectsV2_def io_def Let_def split: if_splits)
    from Some nf "1.prems"(1) have rec: "getR2KeysLoop F pfx (Some t) ?mk ?w1 = (w', Inr ks)"
      by (subst (asm) getR2KeysLoop.simps) (simp add: Let_def)
    from "1.IH"[OF refl nf refl refl Some rec]
    have "set ks = set ?mk \<union> {k \<in> set (drop t ?matching). k \<noteq> []}"
      by (simp add: io_def)
    moreover have "set (take 1000 (drop ?start ?matching)) \<union> set (drop t ?matching)
                     = set (drop ?start ?matching)"
      unfolding t
      by (metis append_take_drop_id drop_drop set_append add.commute)
    ultimately show ?thesis using mk by auto
  qed
qed

lemma r2_keys_stored:
  assumes "getMediaKeysFromR2 F w = (w', Inr ks)"
  shows "set ks = stored w"
proof -
  from assms obtain w1 mk1 w2 mk2 where
    s1: "getR2KeysLoop F PRODUCT_IMAGE_PREFIX None [] w = (w1, Inr mk1)" and
    s2: "getR2KeysLoop F PRODUCT_THUMBNAIL_PREFIX None mk1 w1 = (w2, Inr mk2)" and
    s3: "getR2KeysLoop F CATEGORY_THUMBNAIL_PREFIX None mk2 w2 = (w', Inr ks)"
    by (auto simp: getMediaKeysFromR2_def getR2KeysWithPrefix_def split: prod.splits sum.splits)
  have b1: "bucket w1 = bucket w" using r2loop_frame[OF s1] by (simp add: same_stores_def)
  have b2: "bucket w2 = bucket w" using r2loop_frame[OF s2] b1 by (simp add: same_stores_def)
  have ne: "k \<noteq> []" if "managed k" for k
    using that startsWith_nonempty by (auto simp: managed_def)
  from r2loop_keys_exact[OF s1] r2loop_keys_exact[OF s2] r2loop_keys_exact[OF s3] b1 b2
  show ?thesis using ne by (auto simp: stored_def managed_def)
qed

lemma refs_product_after:
  assumes "\<forall>t. thumbnail p = Some t \<and> t \<in> set D \<and> startsWith t PRODUCT_IMAGE_PREFIX
             \<longrightarrow> startsWith t PRODUCT_THUMBNAIL_PREFIX"
  shows "refs_product (nullProductThumbnail (productThumbnailKeys D) (pullImages (productImageKeys D) p))
           = refs_product p - set D"
  using assms
  by (cases "thumbnail p")
     (auto simp: refs_product_def nullProductThumbnail_def pullImages_def productThumbnailKeys_def
                 productImageKeys_def split: if_splits)

lemma refs_category_after:
  "refs_category (nullCategoryThumbnail (categoryThumbnailKeys D) c) = refs_category c - set D"
  by (cases "cat_thumbnail c")
     (auto simp: refs_category_def nullCategoryThumbnail_def categoryThumbnailKeys_def split: if_splits)

lemma consistent_run_zero:
  assumes idle: "\<not> isCleanupRunning w" and eq: "referenced w = stored w"
  shows "snd (cleanupMediaFiles F w) = zero_counts"
proof -
  let ?w0 = "w\<lparr>isCleanupRunning := True\<rparr>"
  obtain w1 r1 where db: "getMediaKeysFromDatabase F ?w0 = (w1, r1)"
    by (cases "getMediaKeysFromDatabase F ?w0")
  obtain w2 r2 where r2: "getMediaKeysFromR2 F w1 = (w2, r2)"
    by (cases "getMediaKeysFromR2 F w1")
  show ?thesis
  proof (cases r1)
    case (Inl e)
    with idle db show ?thesis by (simp add: cleanupMediaFiles_def cleanupMediaFilesTry_def)
  next
    case (Inr R)
    note r1 = this
    show ?thesis
    proof (cases r2)
      case (Inl e)
      with idle db r1 r2 show ?thesis by (simp add: cleanupMediaFiles_def cleanupMediaFilesTry_def)
    next
      case (Inr S)
      have "bucket w1 = bucket ?w0" using db_frame[OF db] by (simp add: same_stores_def)
      then have sw: "stored w1 = stored w" by (simp add: stored_def)
      have "set R = referenced ?w0" using db r1 db_keys_referenced by blast
      then have R: "set R = referenced w" by (simp add: referenced_def)
      have "set S = stored w1" using r2 Inr r2_keys_stored by blast
      then have S: "set S = set R" using sw eq R by simp
      have O: "filter (\<lambda>k. k \<notin> set R) S = []" and D: "filter (\<lambda>k. k \<notin> set S) R = []"
        using S by (simp_all add: filter_empty_conv)
      show ?thesis
        using idle db r1 r2 Inr O D
        by (simp add: cleanupMediaFiles_def cleanupMediaFilesTry_def deleteOrphanedR2Files_def
              cleanupDanglingDatabaseReferences_def zero_counts_def)
    qed
  qed
qed

text \<open>
  Outside that case the second run is clean. When a run has completed (both
  snapshots obtained, deleter and reference cleanup returned normally) from a state in
  which no product thumbnail is a dangling key under the image prefix outside the
  thumbnail prefix, and the store has refused none of the deletions, the next run returns
  zero counts, whatever fails in it.
\<close>

lemma second_run_clean:
  assumes idle: "\<not> isCleanupRunning w"
    and db: "getMediaKeysFromDatabase F (w\<lparr>isCleanupRunning := True\<rparr>) = (w1, Inr referencedKeys)"
    and r2: "getMediaKeysFromR2 F w1 = (w2, Inr storageKeys)"
    and del: "deleteOrphanedR2Files F (filter (\<lambda>k. k \<notin> set referencedKeys) storageKeys) w2 = (w3, Inr u)"
    and dang: "cleanupDanglingDatabaseReferences F (filter (\<lambda>k. k \<notin> set storageKeys) referencedKeys) w3
                 = (w4, Inr u')"
    and thumbs: "\<forall>p \<in> set (products w). \<forall>t. thumbnail p = Some t \<and> t \<notin> set storageKeys \<and>
                   startsWith t PRODUCT_IMAGE_PREFIX \<longrightarrow> startsWith t PRODUCT_THUMBNAIL_PREFIX"
    and und: "set (undeletable w) \<inter> (set storageKeys - set referencedKeys) = {}"
  shows "snd (cleanupMediaFiles F' (fst (cleanupMediaFiles F w))) = zero_counts"
proof -
  let ?w0 = "w\<lparr>isCleanupRunning := True\<rparr>"
  let ?D = "filter (\<lambda>k. k \<notin> set storageKeys) referencedKeys"
  let ?w' = "w4\<lparr>isCleanupRunning := False\<rparr>"
  have first: "fst (cleanupMediaFiles F w) = ?w'"
    using run_success[OF idle db r2 del dang] by simp
  have R: "set referencedKeys = referenced w"
    using db_keys_referenced[OF db] by (simp add: referenced_def)
  have "bucket w1 = bucket ?w0" using db_frame[OF db] by (simp add: same_stores_def)
  then have S: "set storageKeys = stored w"
    using r2_keys_stored[OF r2] by (simp add: stored_def)
  note st = successful_run_stores[OF db r2 del dang]
  have p: "refs_product (nullProductThumbnail (productThumbnailKeys ?D) (pullImages (productImageKeys ?D) p))
             = refs_product p - set ?D" if "p \<in> set (products w)" for p
    by (rule refs_product_after) (use thumbs that in auto)
  have "referenced ?w' = referenced w - set ?D"
    using st p by (auto simp: referenced_def refs_category_after)
  then have ref': "referenced ?w' = referenced w \<inter> stored w" using R S by auto
  have "stored ?w' = {k \<in> set (bucket w). managed k \<and> k \<notin> set storageKeys - set referencedKeys}"
    using st und by (auto simp: stored_def)
  then have sto': "stored ?w' = referenced w \<inter> stored w" using R S by (auto simp: stored_def)
  have "snd (cleanupMediaFiles F' ?w') = zero_counts"
    by (rule consistent_run_zero) (simp_all add: ref' sto')
  with first show ?thesis by simp
qed

lemma second_run_clean_instance:
  "snd (cleanupMediaFiles no_failure (fst (cleanupMediaFiles no_failure world_A))) = zero_counts \<and>
   snd (cleanupMediaFiles delete_fails (fst (cleanupMediaFiles no_failure world_A))) = zero_counts"
proof -
  let ?a0 = "world_A\<lparr>isCleanupRunning := True\<rparr>"
  let ?a1 = "fst (getMediaKeysFromDatabase no_failure ?a0)"
  let ?a2 = "fst (getMediaKeysFromR2 no_failure ?a1)"
  let ?a3 = "fst (deleteOrphanedR2Files no_failure (filter (\<lambda>k. k \<notin> set [K1]) [K1, K2]) ?a2)"
  let ?a4 = "fst (cleanupDanglingDatabaseReferences no_failure (filter (\<lambda>k. k \<notin> set [K1, K2]) [K1]) ?a3)"
  have idle: "\<not> isCleanupRunning world_A" by (simp add: world_A_def)
  have a: "snd (getMediaKeysFromDatabase no_failure ?a0) = Inr [K1]" by code_simp
  have b: "snd (getMediaKeysFromR2 no_failure ?a1) = Inr [K1, K2]" by code_simp
  have c: "snd (deleteOrphanedR2Files no_failure (filter (\<lambda>k. k \<notin> set [K1]) [K1, K2]) ?a2) = Inr ()"
    by code_simp
  have d: "snd (cleanupDanglingDatabaseReferences no_failure (filter (\<lambda>k. k \<notin> set [K1, K2]) [K1]) ?a3) = Inr ()"
    by code_simp
  have h1: "getMediaKeysFromDatabase no_failure ?a0 = (?a1, Inr [K1])"
    using a by (simp add: prod_eq_iff)
  have h2: "getMediaKeysFromR2 no_failure ?a1 = (?a2, Inr [K1, K2])"
    using b by (simp add: prod_eq_iff)
  have h3: "deleteOrphanedR2Files no_failure (filter (\<lambda>k. k \<notin> set [K1]) [K1, K2]) ?a2 = (?a3, Inr ())"
    using c by (simp add: prod_eq_iff)
  have h4: "cleanupDanglingDatabaseReferences no_failure (filter (\<lambda>k. k \<notin> set [K1, K2]) [K1]) ?a3 = (?a4, Inr ())"
    using d by (simp add: prod_eq_iff)
  have th: "\<forall>p \<in> set (products world_A). \<forall>t. thumbnail p = Some t \<and> t \<notin> set [K1, K2] \<and>
              startsWith t PRODUCT_IMAGE_PREFIX \<longrightarrow> startsWith t PRODUCT_THUMBNAIL_PREFIX"
    by (simp add: world_A_def)
  have un: "set (undeletable world_A) \<inter> (set [K1, K2] - set [K1]) = {}"
    by (simp add: world_A_def)
  show ?thesis
    using second_run_clean[OF idle h1 h2 h3 h4 th un, of no_failure]
          second_run_clean[OF idle h1 h2 h3 h4 th un, of delete_fails]
    by simp
qed

end
